theory Spec2Isabelle
  imports Complex_Main "HOL-Library.Log_Nat" "HOL-Library.Code_Target_Nat"
begin

section \<open>IEEE 754 binary floating point\<close>

text \<open>
  The kernel computes in C++ \<^verbatim>\<open>float\<close> (binary32) and, for the two distances of the
  nearest-neighbour branch, in \<^verbatim>\<open>double\<close> (binary64, because \<^verbatim>\<open>pow(float, int)\<close>
  promotes to double). A value is a NaN, a signed infinity, or a sign and a
  non-negative rational magnitude (\<open>Finite True 0\<close> is the negative zero). Every
  operation computes the exact rational result and rounds it once to the nearest
  value of the format, ties to the even significand; each C++ operator is one
  such operation (no fused multiply-add, no excess precision).
\<close>

datatype float = NaN | Infty bool | Finite bool rat

record format =
  prec :: nat
  emax :: int

definition binary32 :: format where
  "binary32 = \<lparr>prec = 24, emax = 127\<rparr>"

definition binary64 :: format where
  "binary64 = \<lparr>prec = 53, emax = 1023\<rparr>"

text \<open>The exponent of the least significant bit of the subnormal numbers.\<close>

definition qmin :: "format \<Rightarrow> int" where
  "qmin f = 2 - emax f - int (prec f)"

text \<open>\<open>ilog2 q\<close> is \<open>\<lfloor>log\<^sub>2 q\<rfloor>\<close> for a positive rational.\<close>

definition ilog2 :: "rat \<Rightarrow> int" where
  "ilog2 q = (let (a, b) = quotient_of q; k = bitlen a - bitlen b
              in if 2 powi k \<le> q then k else k - 1)"

text \<open>Rounding a rational to the nearest integer, ties to even.\<close>

definition rhe :: "rat \<Rightarrow> int" where
  "rhe r = (let f = \<lfloor>r\<rfloor>; d = r - of_int f
            in if d < 1/2 then f else if 1/2 < d then f + 1
               else if even f then f else f + 1)"

text \<open>
  \<open>round_to f s q\<close> rounds the magnitude \<open>q \<ge> 0\<close> with sign \<open>s\<close> into format \<open>f\<close>:
  the significand has \<open>prec f\<close> bits, the exponent does not go below the subnormal
  range, and a result of \<open>2 ^ (emax f + 1)\<close> or more overflows to infinity.
\<close>

definition round_to :: "format \<Rightarrow> bool \<Rightarrow> rat \<Rightarrow> float" where
  "round_to f s q =
     (let e = max (ilog2 q - (int (prec f) - 1)) (qmin f);
          r = of_int (rhe (q / 2 powi e)) * 2 powi e
      in if 2 powi (emax f + 1) \<le> r then Infty s else Finite s r)"

definition valof :: "bool \<Rightarrow> rat \<Rightarrow> rat" where
  "valof s q = (if s then - q else q)"

fun fneg :: "float \<Rightarrow> float" where
  "fneg NaN = NaN"
| "fneg (Infty s) = Infty (\<not> s)"
| "fneg (Finite s q) = Finite (\<not> s) q"

fun fadd :: "format \<Rightarrow> float \<Rightarrow> float \<Rightarrow> float" where
  "fadd f NaN b = NaN"
| "fadd f a NaN = NaN"
| "fadd f (Infty s) (Infty t) = (if s = t then Infty s else NaN)"
| "fadd f (Infty s) (Finite t q) = Infty s"
| "fadd f (Finite s p) (Infty t) = Infty t"
| "fadd f (Finite s p) (Finite t q) =
     (let v = valof s p + valof t q
      in if v = 0 then Finite (s \<and> t) 0 else round_to f (v < 0) \<bar>v\<bar>)"

definition fsub :: "format \<Rightarrow> float \<Rightarrow> float \<Rightarrow> float" where
  "fsub f a b = fadd f a (fneg b)"

fun fmul :: "format \<Rightarrow> float \<Rightarrow> float \<Rightarrow> float" where
  "fmul f NaN b = NaN"
| "fmul f a NaN = NaN"
| "fmul f (Infty s) (Infty t) = Infty (s \<noteq> t)"
| "fmul f (Infty s) (Finite t q) = (if q = 0 then NaN else Infty (s \<noteq> t))"
| "fmul f (Finite s p) (Infty t) = (if p = 0 then NaN else Infty (s \<noteq> t))"
| "fmul f (Finite s p) (Finite t q) = round_to f (s \<noteq> t) (p * q)"

fun fdiv :: "format \<Rightarrow> float \<Rightarrow> float \<Rightarrow> float" where
  "fdiv f NaN b = NaN"
| "fdiv f a NaN = NaN"
| "fdiv f (Infty s) (Infty t) = NaN"
| "fdiv f (Infty s) (Finite t q) = Infty (s \<noteq> t)"
| "fdiv f (Finite s p) (Infty t) = Finite (s \<noteq> t) 0"
| "fdiv f (Finite s p) (Finite t q) =
     (if q = 0 then (if p = 0 then NaN else Infty (s \<noteq> t))
      else round_to f (s \<noteq> t) (p / q))"

text \<open>\<^verbatim>\<open>floorf\<close>: exact, and it keeps the sign of a zero.\<close>

fun ffloor :: "float \<Rightarrow> float" where
  "ffloor NaN = NaN"
| "ffloor (Infty s) = Infty s"
| "ffloor (Finite s q) =
     (let k = \<lfloor>valof s q\<rfloor>
      in if k = 0 then Finite s 0 else Finite (k < 0) (of_int \<bar>k\<bar>))"

text \<open>The integer square root, by a digit of the result per call.\<close>

function isqrt :: "int \<Rightarrow> int" where
  "isqrt n = (if n < 2 then n
              else let r = 2 * isqrt (n div 4)
                   in if (r + 1) * (r + 1) \<le> n then r + 1 else r)"
  by pat_completeness auto
termination
  by (relation "measure nat") auto

declare isqrt.simps [simp del]

text \<open>
  The correctly rounded square root of a positive rational: the significand is the
  integer square root of the scaled argument, moved up by one where the argument
  lies beyond the midpoint.
\<close>

definition round_sqrt :: "format \<Rightarrow> rat \<Rightarrow> float" where
  "round_sqrt f q =
     (let e = max (ilog2 q div 2 - (int (prec f) - 1)) (qmin f);
          t = q / 4 powi e;
          m = isqrt \<lfloor>t\<rfloor>;
          h = (of_int m + 1/2) * (of_int m + 1/2);
          k = (if t < h then m else if h < t then m + 1
               else if even m then m else m + 1)
      in Finite False (of_int k * 2 powi e))"

fun fsqrt :: "format \<Rightarrow> float \<Rightarrow> float" where
  "fsqrt f NaN = NaN"
| "fsqrt f (Infty s) = (if s then NaN else Infty False)"
| "fsqrt f (Finite s q) =
     (if q = 0 then Finite s 0 else if s then NaN else round_sqrt f q)"

text \<open>The comparisons \<^verbatim>\<open><=\<close> and \<^verbatim>\<open>==\<close>: false on a NaN, and the two zeros are equal.\<close>

fun fle :: "float \<Rightarrow> float \<Rightarrow> bool" where
  "fle NaN b = False"
| "fle a NaN = False"
| "fle (Infty s) (Infty t) = (s \<or> \<not> t)"
| "fle (Infty s) (Finite t q) = s"
| "fle (Finite s p) (Infty t) = (\<not> t)"
| "fle (Finite s p) (Finite t q) = (valof s p \<le> valof t q)"

fun feq :: "float \<Rightarrow> float \<Rightarrow> bool" where
  "feq (Infty s) (Infty t) = (s = t)"
| "feq (Finite s p) (Finite t q) = (valof s p = valof t q)"
| "feq a b = False"

text \<open>
  A finite value of the format: a non-negative magnitude that rounding leaves as
  it is.
\<close>

definition finite_float :: "format \<Rightarrow> float \<Rightarrow> bool" where
  "finite_float f a =
     (case a of Finite s q \<Rightarrow> 0 \<le> q \<and> round_to f s q = Finite s q | _ \<Rightarrow> False)"

section \<open>Unsigned integers and checked conversions\<close>

text \<open>
  An \<^verbatim>\<open>unsigned int\<close> is a natural number below \<open>2 ^ 32\<close>; the two operations the
  kernel applies to it wrap around.
\<close>

definition uint_add :: "nat \<Rightarrow> nat \<Rightarrow> nat" where
  "uint_add a b = (a + b) mod 4294967296"

definition uint_sub :: "nat \<Rightarrow> nat \<Rightarrow> nat" where
  "uint_sub a b = (a + 4294967296 - b) mod 4294967296"

text \<open>
  \<^verbatim>\<open>boost::numeric_cast\<close> checks the range of its argument and throws
  \<^verbatim>\<open>negative_overflow\<close> or \<^verbatim>\<open>positive_overflow\<close> outside of it. To \<^verbatim>\<open>float\<close> every
  unsigned value is in range and is rounded to nearest. To \<^verbatim>\<open>unsigned int\<close> a value
  of \<open>- 1\<close> or less, or of \<open>2 ^ 32\<close> or more, is rejected, and a value in between is
  truncated towards zero; a NaN passes both comparisons and its conversion is
  undefined.
\<close>

datatype error = NegativeOverflow | PositiveOverflow | UndefinedCast

definition numeric_cast_float :: "nat \<Rightarrow> float" where
  "numeric_cast_float n = round_to binary32 False (of_nat n)"

definition numeric_cast_uint :: "float \<Rightarrow> error + nat" where
  "numeric_cast_uint a =
     (case a of
        NaN \<Rightarrow> Inl UndefinedCast
      | Infty s \<Rightarrow> Inl (if s then NegativeOverflow else PositiveOverflow)
      | Finite s q \<Rightarrow>
          if valof s q \<le> - 1 then Inl NegativeOverflow
          else if 4294967296 \<le> valof s q then Inl PositiveOverflow
          else Inr (nat \<lfloor>q\<rfloor>))"

section \<open>Tensor shapes, layouts and element access\<close>

type_synonym TensorShape = "nat list"

record TensorInfo =
  GetShape :: TensorShape

datatype ResizeMethod = Bilinear | NearestNeighbor | Unrecognized nat

text \<open>
  Modelled from the spec: \<^verbatim>\<open>DataLayoutIndexed\<close> is declared outside of
  \<^verbatim>\<open>Resize.cpp\<close>. The two layouts are channel-first (batch, channel, height, width)
  and channel-last (batch, height, width, channel); the descriptor gives the axis
  position of each logical dimension and maps a logical coordinate of a 4-D shape
  to its flat row-major element offset.
\<close>

datatype DataLayout = NCHW | NHWC

fun GetChannelsIndex :: "DataLayout \<Rightarrow> nat" where
  "GetChannelsIndex NCHW = 1"
| "GetChannelsIndex NHWC = 3"

fun GetHeightIndex :: "DataLayout \<Rightarrow> nat" where
  "GetHeightIndex NCHW = 2"
| "GetHeightIndex NHWC = 1"

fun GetWidthIndex :: "DataLayout \<Rightarrow> nat" where
  "GetWidthIndex NCHW = 3"
| "GetWidthIndex NHWC = 2"

definition GetIndex :: "DataLayout \<Rightarrow> TensorShape \<Rightarrow> nat \<Rightarrow> nat \<Rightarrow> nat \<Rightarrow> nat \<Rightarrow> nat" where
  "GetIndex l sh b c h w =
     (case l of
        NHWC \<Rightarrow> b * (sh ! 1 * sh ! 2 * sh ! 3)
                + h * (sh ! GetWidthIndex l * sh ! GetChannelsIndex l)
                + w * sh ! GetChannelsIndex l + c
      | NCHW \<Rightarrow> b * (sh ! 1 * sh ! 2 * sh ! 3)
                + c * (sh ! GetHeightIndex l * sh ! GetWidthIndex l)
                + h * sh ! GetWidthIndex l + w)"

text \<open>
  Modelled from the spec: the scalar reader \<^verbatim>\<open>Decoder<float>\<close> and the scalar writer
  \<^verbatim>\<open>Encoder<float>\<close> are declared outside of \<^verbatim>\<open>Resize.cpp\<close>. Each is bound to a buffer
  and holds a current offset: \<^verbatim>\<open>operator[]\<close> selects the offset, \<^verbatim>\<open>Get\<close> reads and
  \<^verbatim>\<open>Set\<close> writes the value at the selected offset. The writer also keeps the list
  of the writes it has received, in order, as an instrumented test double does.
\<close>

record Decoder =
  dec_data :: "nat \<Rightarrow> float"
  dec_index :: nat

definition dec_at :: "Decoder \<Rightarrow> nat \<Rightarrow> Decoder" where
  "dec_at d i = d\<lparr>dec_index := i\<rparr>"

definition dec_Get :: "Decoder \<Rightarrow> float" where
  "dec_Get d = dec_data d (dec_index d)"

record Encoder =
  enc_data :: "nat \<Rightarrow> float"
  enc_index :: nat
  enc_writes :: "(nat \<times> float) list"

definition enc_at :: "Encoder \<Rightarrow> nat \<Rightarrow> Encoder" where
  "enc_at e i = e\<lparr>enc_index := i\<rparr>"

definition enc_Set :: "Encoder \<Rightarrow> float \<Rightarrow> Encoder" where
  "enc_Set e v = e\<lparr>enc_data := (enc_data e)(enc_index e := v),
                    enc_writes := enc_writes e @ [(enc_index e, v)]\<rparr>"

section \<open>The resize kernel\<close>

definition Lerp :: "float \<Rightarrow> float \<Rightarrow> float \<Rightarrow> float" where
  "Lerp a b w = fadd binary32 (fmul binary32 w b)
                              (fmul binary32 (fsub binary32 (Finite False 1) w) a)"

text \<open>\<^verbatim>\<open>pow(d, 2)\<close> on a \<^verbatim>\<open>float\<close> argument: the square, in double precision.\<close>

definition pow2 :: "float \<Rightarrow> float" where
  "pow2 d = fmul binary64 d d"

text \<open>
  The distance of the nearest-neighbour branch, from the floored coordinate
  \<open>(fix, fiy)\<close> to the texel \<open>(x, y)\<close>.
\<close>

definition distance :: "float \<Rightarrow> float \<Rightarrow> nat \<Rightarrow> nat \<Rightarrow> float" where
  "distance fix fiy x y =
     fsqrt binary64
       (fadd binary64 (pow2 (fsub binary32 fix (numeric_cast_float x)))
                      (pow2 (fsub binary32 fiy (numeric_cast_float y))))"

text \<open>
  A counting loop \<^verbatim>\<open>for (unsigned int i = ...; i < n; ++i)\<close> over a state; an exception
  thrown by the body ends it.
\<close>

function for_loop :: "nat \<Rightarrow> nat \<Rightarrow> (nat \<Rightarrow> 's \<Rightarrow> error + 's) \<Rightarrow> 's \<Rightarrow> error + 's" where
  "for_loop i n body s =
     (if i < n
      then (case body i s of Inl e \<Rightarrow> Inl e | Inr s' \<Rightarrow> for_loop (i + 1) n body s')
      else Inr s)"
  by pat_completeness auto
termination
  by (relation "measure (\<lambda>(i, n, body, s). n - i)") auto

declare for_loop.simps [simp del]

text \<open>
  The \<^verbatim>\<open>switch\<close> on the resize method: the interpolated value and the reader as the
  reads leave it.
\<close>

definition interpolate ::
  "Decoder \<Rightarrow> TensorShape \<Rightarrow> DataLayout \<Rightarrow> ResizeMethod \<Rightarrow> nat \<Rightarrow> nat
   \<Rightarrow> float \<Rightarrow> float \<Rightarrow> float \<Rightarrow> float \<Rightarrow> nat \<Rightarrow> nat \<Rightarrow> nat \<Rightarrow> nat
   \<Rightarrow> float \<times> Decoder" where
  "interpolate inp inputShape dataLayout resizeMethod n c fix fiy xw yw x0 y0 x1 y1 =
     (case resizeMethod of
        Bilinear \<Rightarrow>
          let in1 = dec_at inp (GetIndex dataLayout inputShape n c y0 x0);
              input1 = dec_Get in1;
              in2 = dec_at in1 (GetIndex dataLayout inputShape n c y0 x1);
              input2 = dec_Get in2;
              in3 = dec_at in2 (GetIndex dataLayout inputShape n c y1 x0);
              input3 = dec_Get in3;
              in4 = dec_at in3 (GetIndex dataLayout inputShape n c y1 x1);
              input4 = dec_Get in4;
              ly0 = Lerp input1 input2 xw;
              ly1 = Lerp input3 input4 xw
          in (Lerp ly0 ly1 yw, in4)
      | _ \<Rightarrow>
          let distance0 = distance fix fiy x0 y0;
              distance1 = distance fix fiy x1 y1;
              xNearest = (if fle distance0 distance1 then x0 else x1);
              yNearest = (if fle distance0 distance1 then y0 else y1);
              in1 = dec_at inp (GetIndex dataLayout inputShape n c yNearest xNearest)
          in (dec_Get in1, in1))"

text \<open>The body of the loop over the output columns.\<close>

definition ResizeX ::
  "TensorShape \<Rightarrow> TensorShape \<Rightarrow> nat \<Rightarrow> nat \<Rightarrow> DataLayout \<Rightarrow> ResizeMethod \<Rightarrow> float
   \<Rightarrow> nat \<Rightarrow> nat \<Rightarrow> nat \<Rightarrow> float \<Rightarrow> nat \<Rightarrow> float \<Rightarrow> nat
   \<Rightarrow> Decoder \<times> Encoder \<Rightarrow> error + Decoder \<times> Encoder" where
  "ResizeX inputShape outputShape inputHeight inputWidth dataLayout resizeMethod scaleX
           n c y fiy y0 yw x s =
     (case s of (inp, out) \<Rightarrow>
        let ix = fmul binary32 (numeric_cast_float x) scaleX;
            fix = ffloor ix
        in case numeric_cast_uint fix of
             Inl e \<Rightarrow> Inl e
           | Inr x0 \<Rightarrow>
               let xw = fsub binary32 ix fix;
                   x1 = min (uint_add x0 1) (uint_sub inputWidth 1);
                   y1 = min (uint_add y0 1) (uint_sub inputHeight 1);
                   (interpolatedValue, inp') =
                      interpolate inp inputShape dataLayout resizeMethod n c
                                  fix fiy xw yw x0 y0 x1 y1;
                   out1 = enc_at out (GetIndex dataLayout outputShape n c y x)
               in Inr (inp', enc_Set out1 interpolatedValue))"

text \<open>The body of the loop over the output rows.\<close>

definition ResizeY ::
  "TensorShape \<Rightarrow> TensorShape \<Rightarrow> nat \<Rightarrow> nat \<Rightarrow> nat \<Rightarrow> DataLayout \<Rightarrow> ResizeMethod
   \<Rightarrow> float \<Rightarrow> float \<Rightarrow> nat \<Rightarrow> nat \<Rightarrow> nat
   \<Rightarrow> Decoder \<times> Encoder \<Rightarrow> error + Decoder \<times> Encoder" where
  "ResizeY inputShape outputShape inputHeight inputWidth outputWidth dataLayout resizeMethod
           scaleY scaleX n c y s =
     (let iy = fmul binary32 (numeric_cast_float y) scaleY;
          fiy = ffloor iy
      in case numeric_cast_uint fiy of
           Inl e \<Rightarrow> Inl e
         | Inr y0 \<Rightarrow>
             let yw = fsub binary32 iy fiy
             in for_loop 0 outputWidth
                  (ResizeX inputShape outputShape inputHeight inputWidth dataLayout
                           resizeMethod scaleX n c y fiy y0 yw) s)"

definition Resize ::
  "Decoder \<Rightarrow> TensorInfo \<Rightarrow> Encoder \<Rightarrow> TensorInfo \<Rightarrow> DataLayout \<Rightarrow> ResizeMethod
   \<Rightarrow> error + Decoder \<times> Encoder" where
  "Resize inp inputInfo out outputInfo dataLayout resizeMethod =
     (let batchSize = GetShape inputInfo ! 0;
          channelCount = GetShape inputInfo ! GetChannelsIndex dataLayout;
          inputHeight = GetShape inputInfo ! GetHeightIndex dataLayout;
          inputWidth = GetShape inputInfo ! GetWidthIndex dataLayout;
          outputHeight = GetShape outputInfo ! GetHeightIndex dataLayout;
          outputWidth = GetShape outputInfo ! GetWidthIndex dataLayout;
          scaleY = fdiv binary32 (numeric_cast_float inputHeight)
                                 (numeric_cast_float outputHeight);
          scaleX = fdiv binary32 (numeric_cast_float inputWidth)
                                 (numeric_cast_float outputWidth);
          inputShape = GetShape inputInfo;
          outputShape = GetShape outputInfo
      in for_loop 0 batchSize (\<lambda>n.
           for_loop 0 channelCount (\<lambda>c.
             for_loop 0 outputHeight
               (ResizeY inputShape outputShape inputHeight inputWidth outputWidth
                        dataLayout resizeMethod scaleY scaleX n c)))
           (inp, out))"

section \<open>The loops as folds, and the value of an output element\<close>

fun efold :: "(nat \<Rightarrow> 's \<Rightarrow> error + 's) \<Rightarrow> nat list \<Rightarrow> 's \<Rightarrow> error + 's" where
  "efold body [] s = Inr s"
| "efold body (i # js) s =
     (case body i s of Inl e \<Rightarrow> Inl e | Inr s' \<Rightarrow> efold body js s')"

definition apply_writes :: "(nat \<times> float) list \<Rightarrow> (nat \<Rightarrow> float) \<Rightarrow> nat \<Rightarrow> float" where
  "apply_writes ws d = fold (\<lambda>w g. g(fst w := snd w)) ws d"

definition wrote :: "Decoder \<times> Encoder \<Rightarrow> (nat \<times> float) list \<Rightarrow> Decoder \<times> Encoder \<Rightarrow> bool" where
  "wrote s ws s' \<longleftrightarrow>
     dec_data (fst s') = dec_data (fst s) \<and>
     enc_writes (snd s') = enc_writes (snd s) @ ws \<and>
     enc_data (snd s') = apply_writes ws (enc_data (snd s))"

definition project :: "nat \<Rightarrow> nat \<Rightarrow> nat \<Rightarrow> float" where
  "project inExtent outExtent i =
     fmul binary32 (numeric_cast_float i)
       (fdiv binary32 (numeric_cast_float inExtent) (numeric_cast_float outExtent))"

definition texel :: "nat \<Rightarrow> nat \<Rightarrow> nat \<Rightarrow> error + nat" where
  "texel inExtent outExtent i = numeric_cast_uint (ffloor (project inExtent outExtent i))"

definition weight :: "nat \<Rightarrow> nat \<Rightarrow> nat \<Rightarrow> float" where
  "weight inExtent outExtent i =
     fsub binary32 (project inExtent outExtent i) (ffloor (project inExtent outExtent i))"

definition next_texel :: "nat \<Rightarrow> nat \<Rightarrow> nat" where
  "next_texel inExtent k = min (uint_add k 1) (uint_sub inExtent 1)"

definition pixelValue ::
  "(nat \<Rightarrow> float) \<Rightarrow> TensorShape \<Rightarrow> TensorShape \<Rightarrow> DataLayout \<Rightarrow> ResizeMethod
   \<Rightarrow> nat \<Rightarrow> nat \<Rightarrow> nat \<Rightarrow> nat \<Rightarrow> error + float" where
  "pixelValue D ish osh l m n c y x =
     (let Hin = ish ! GetHeightIndex l; Win = ish ! GetWidthIndex l;
          Hout = osh ! GetHeightIndex l; Wout = osh ! GetWidthIndex l
      in case texel Hin Hout y of
           Inl e \<Rightarrow> Inl e
         | Inr y0 \<Rightarrow>
            (case texel Win Wout x of
               Inl e \<Rightarrow> Inl e
             | Inr x0 \<Rightarrow>
                 Inr (fst (interpolate \<lparr>dec_data = D, dec_index = 0\<rparr> ish l m n c
                             (ffloor (project Win Wout x)) (ffloor (project Hin Hout y))
                             (weight Win Wout x) (weight Hin Hout y)
                             x0 y0 (next_texel Win x0) (next_texel Hin y0)))))"

definition written ::
  "(nat \<Rightarrow> float) \<Rightarrow> TensorShape \<Rightarrow> TensorShape \<Rightarrow> DataLayout \<Rightarrow> ResizeMethod
   \<Rightarrow> nat \<times> float \<Rightarrow> nat \<times> nat \<times> nat \<times> nat \<Rightarrow> bool" where
  "written D ish osh l m w p =
     (case p of (n, c, y, x) \<Rightarrow>
        fst w = GetIndex l osh n c y x \<and> pixelValue D ish osh l m n c y x = Inr (snd w))"

definition coords :: "nat \<Rightarrow> nat \<Rightarrow> nat \<Rightarrow> nat \<Rightarrow> (nat \<times> nat \<times> nat \<times> nat) list" where
  "coords N C H W =
     List.product [0..<N] (List.product [0..<C] (List.product [0..<H] [0..<W]))"

definition offset :: "DataLayout \<Rightarrow> TensorShape \<Rightarrow> nat \<times> nat \<times> nat \<times> nat \<Rightarrow> nat" where
  "offset l sh p = (case p of (n, c, y, x) \<Rightarrow> GetIndex l sh n c y x)"

section \<open>Predicates on floating-point values\<close>

text \<open>
  \<open>is_float f a\<close>: \<open>a\<close> is a value of the format \<open>f\<close> (a NaN, an infinity, or a finite
  magnitude that rounding leaves as it is). \<open>fnonneg a\<close>: \<open>a\<close> is not a NaN and not
  negative.
\<close>

definition is_float :: "format \<Rightarrow> float \<Rightarrow> bool" where
  "is_float f a =
     (case a of Finite s q \<Rightarrow> 0 \<le> q \<and> round_to f s q = Finite s q | _ \<Rightarrow> True)"

definition fnonneg :: "float \<Rightarrow> bool" where
  "fnonneg a = (case a of NaN \<Rightarrow> False | Infty s \<Rightarrow> \<not> s | Finite s q \<Rightarrow> \<not> s \<and> 0 \<le> q)"

section \<open>Sampling at the floored coordinate\<close>

text \<open>
  The simpler kernel that the nearest-neighbour method is compared with: for each
  output element it reads the input sample at row \<open>\<lfloor>y * scaleY\<rfloor>\<close> and column
  \<open>\<lfloor>x * scaleX\<rfloor>\<close> and writes it.
\<close>

definition NearestFloor ::
  "Decoder \<Rightarrow> TensorInfo \<Rightarrow> Encoder \<Rightarrow> TensorInfo \<Rightarrow> DataLayout \<Rightarrow> error + Decoder \<times> Encoder" where
  "NearestFloor inp inputInfo out outputInfo dataLayout =
     (let inputShape = GetShape inputInfo;
          outputShape = GetShape outputInfo;
          scaleY = fdiv binary32 (numeric_cast_float (inputShape ! GetHeightIndex dataLayout))
                                 (numeric_cast_float (outputShape ! GetHeightIndex dataLayout));
          scaleX = fdiv binary32 (numeric_cast_float (inputShape ! GetWidthIndex dataLayout))
                                 (numeric_cast_float (outputShape ! GetWidthIndex dataLayout))
      in for_loop 0 (inputShape ! 0) (\<lambda>n.
           for_loop 0 (inputShape ! GetChannelsIndex dataLayout) (\<lambda>c.
             for_loop 0 (outputShape ! GetHeightIndex dataLayout) (\<lambda>y s.
               case numeric_cast_uint (ffloor (fmul binary32 (numeric_cast_float y) scaleY)) of
                 Inl e \<Rightarrow> Inl e
               | Inr y0 \<Rightarrow>
                   for_loop 0 (outputShape ! GetWidthIndex dataLayout) (\<lambda>x s.
                     case numeric_cast_uint
                            (ffloor (fmul binary32 (numeric_cast_float x) scaleX)) of
                       Inl e \<Rightarrow> Inl e
                     | Inr x0 \<Rightarrow>
                         Inr (dec_at (fst s) (GetIndex dataLayout inputShape n c y0 x0),
                              enc_Set (enc_at (snd s) (GetIndex dataLayout outputShape n c y x))
                                (dec_Get (dec_at (fst s)
                                   (GetIndex dataLayout inputShape n c y0 x0))))) s)))
           (inp, out))"

section \<open>Example tensors\<close>

text \<open>A reader over a buffer that holds its own offsets as values, and a fresh writer.\<close>

definition example_input :: Decoder where
  "example_input = \<lparr>dec_data = (\<lambda>i. Finite False (of_nat i)), dec_index = 0\<rparr>"

definition blank_output :: Encoder where
  "blank_output = \<lparr>enc_data = (\<lambda>i. NaN), enc_index = 0, enc_writes = []\<rparr>"

text \<open>
  A reader over a buffer that holds an infinity at offset 1 and the value one
  elsewhere, and the value that a run has left at an offset of the output buffer.
\<close>

definition inf_input :: Decoder where
  "inf_input = \<lparr>dec_data = (\<lambda>i. if i = 1 then Infty False else Finite False 1), dec_index = 0\<rparr>"

definition result_at :: "error + Decoder \<times> Encoder \<Rightarrow> nat \<Rightarrow> error + float" where
  "result_at r i = (case r of Inl e \<Rightarrow> Inl e | Inr s \<Rightarrow> Inr (enc_data (snd s) i))"

section \<open>What a run of the kernel writes\<close>

lemma for_loop_efold: "for_loop i n body s = efold body [i..<n] s"
proof (induction i n body s rule: for_loop.induct)
  case (1 i n body s)
  show ?case
  proof (cases "i < n")
    case True
    then have "[i..<n] = i # [i + 1..<n]"
      by (simp add: upt_conv_Cons)
    with True 1 show ?thesis
      by (subst for_loop.simps) (auto split: sum.splits)
  next
    case False
    then show ?thesis
      by (subst for_loop.simps) simp
  qed
qed

lemma wrote_refl: "wrote s [] s"
  by (simp add: wrote_def apply_writes_def)

lemma wrote_trans: "wrote s ws s' \<Longrightarrow> wrote s' vs s'' \<Longrightarrow> wrote s (ws @ vs) s''"
  by (simp add: wrote_def apply_writes_def)

lemma efold_wrote:
  assumes step: "\<And>i s s'. i \<in> set xs \<Longrightarrow> dec_data (fst s) = D \<Longrightarrow> body i s = Inr s'
                 \<Longrightarrow> \<exists>ws. wrote s ws s' \<and> list_all2 R ws (g i)"
    and run: "efold body xs s = Inr s'"
    and D: "dec_data (fst s) = D"
  shows "\<exists>ws. wrote s ws s' \<and> list_all2 R ws (concat (map g xs))"
  using assms
proof (induction xs arbitrary: s)
  case Nil
  then show ?case by (auto intro: wrote_refl)
next
  case (Cons i js)
  from Cons.prems(2) obtain s1 where b: "body i s = Inr s1" and r: "efold body js s1 = Inr s'"
    by (auto split: sum.splits)
  from Cons.prems(1)[OF _ Cons.prems(3) b] obtain ws where
    ws: "wrote s ws s1" "list_all2 R ws (g i)" by auto
  from ws(1) Cons.prems(3) have D1: "dec_data (fst s1) = D"
    by (simp add: wrote_def)
  have "\<exists>vs. wrote s1 vs s' \<and> list_all2 R vs (concat (map g js))"
    by (rule Cons.IH[OF _ r D1]) (auto intro: Cons.prems(1))
  then obtain vs where vs: "wrote s1 vs s'" "list_all2 R vs (concat (map g js))" by auto
  from ws vs have "wrote s (ws @ vs) s'" "list_all2 R (ws @ vs) (concat (map g (i # js)))"
    by (auto intro: wrote_trans list_all2_appendI)
  then show ?case by blast
qed

lemma interpolate_data:
  "dec_data (snd (interpolate inp sh l m n c fix fiy xw yw x0 y0 x1 y1)) = dec_data inp"
  by (cases m) (simp_all add: interpolate_def dec_at_def Let_def)

lemma interpolate_value:
  "fst (interpolate inp sh l m n c fix fiy xw yw x0 y0 x1 y1) =
   fst (interpolate \<lparr>dec_data = dec_data inp, dec_index = 0\<rparr> sh l m n c fix fiy xw yw x0 y0 x1 y1)"
  by (cases m) (simp_all add: interpolate_def dec_at_def dec_Get_def Let_def)

lemma ResizeX_unfold:
  "ResizeX ish osh ih iw l m sx n c y fiy y0 yw x (inp, out) =
     (case numeric_cast_uint (ffloor (fmul binary32 (numeric_cast_float x) sx)) of
        Inl e \<Rightarrow> Inl e
      | Inr x0 \<Rightarrow>
          Inr (snd (interpolate inp ish l m n c (ffloor (fmul binary32 (numeric_cast_float x) sx))
                      fiy (fsub binary32 (fmul binary32 (numeric_cast_float x) sx)
                                         (ffloor (fmul binary32 (numeric_cast_float x) sx)))
                      yw x0 y0 (next_texel iw x0) (next_texel ih y0)),
               enc_Set (enc_at out (GetIndex l osh n c y x))
                 (fst (interpolate inp ish l m n c
                      (ffloor (fmul binary32 (numeric_cast_float x) sx))
                      fiy (fsub binary32 (fmul binary32 (numeric_cast_float x) sx)
                                         (ffloor (fmul binary32 (numeric_cast_float x) sx)))
                      yw x0 y0 (next_texel iw x0) (next_texel ih y0)))))"
  by (simp add: ResizeX_def Let_def case_prod_beta next_texel_def split: sum.splits)

lemma ResizeX_wrote:
  assumes "ResizeX ish osh (ish ! GetHeightIndex l) (ish ! GetWidthIndex l) l m
             (fdiv binary32 (numeric_cast_float (ish ! GetWidthIndex l))
                            (numeric_cast_float (osh ! GetWidthIndex l)))
             n c y (ffloor (project (ish ! GetHeightIndex l) (osh ! GetHeightIndex l) y)) y0
             (weight (ish ! GetHeightIndex l) (osh ! GetHeightIndex l) y) x s = Inr s'"
    and "texel (ish ! GetHeightIndex l) (osh ! GetHeightIndex l) y = Inr y0"
  shows "\<exists>ws. wrote s ws s' \<and> list_all2 (written (dec_data (fst s)) ish osh l m) ws [(n, c, y, x)]"
proof -
  obtain inp out where s: "s = (inp, out)" by (cases s)
  define r where "r x0 = interpolate inp ish l m n c
                (ffloor (project (ish ! GetWidthIndex l) (osh ! GetWidthIndex l) x))
                (ffloor (project (ish ! GetHeightIndex l) (osh ! GetHeightIndex l) y))
                (weight (ish ! GetWidthIndex l) (osh ! GetWidthIndex l) x)
                (weight (ish ! GetHeightIndex l) (osh ! GetHeightIndex l) y)
                x0 y0 (next_texel (ish ! GetWidthIndex l) x0) (next_texel (ish ! GetHeightIndex l) y0)"
    for x0
  from assms(1) obtain x0 where
    x0: "texel (ish ! GetWidthIndex l) (osh ! GetWidthIndex l) x = Inr x0"
    and s': "s' = (snd (r x0), enc_Set (enc_at out (GetIndex l osh n c y x)) (fst (r x0)))"
    unfolding s ResizeX_unfold texel_def project_def weight_def r_def
    by (auto split: sum.splits)
  have w: "wrote s [(GetIndex l osh n c y x, fst (r x0))] s'"
    by (simp add: s s' wrote_def apply_writes_def enc_Set_def enc_at_def r_def interpolate_data)
  have "pixelValue (dec_data inp) ish osh l m n c y x = Inr (fst (r x0))"
    using x0 assms(2) by (simp add: pixelValue_def Let_def r_def interpolate_value[of inp])
  with w show ?thesis
    by (auto simp: written_def s)
qed

lemma ResizeY_wrote:
  assumes "ResizeY ish osh (ish ! GetHeightIndex l) (ish ! GetWidthIndex l) (osh ! GetWidthIndex l)
             l m
             (fdiv binary32 (numeric_cast_float (ish ! GetHeightIndex l))
                            (numeric_cast_float (osh ! GetHeightIndex l)))
             (fdiv binary32 (numeric_cast_float (ish ! GetWidthIndex l))
                            (numeric_cast_float (osh ! GetWidthIndex l)))
             n c y s = Inr s'"
  shows "\<exists>ws. wrote s ws s' \<and>
           list_all2 (written (dec_data (fst s)) ish osh l m) ws
             (concat (map (\<lambda>x. [(n, c, y, x)]) [0..<osh ! GetWidthIndex l]))"
proof -
  from assms obtain y0 where
    y0: "texel (ish ! GetHeightIndex l) (osh ! GetHeightIndex l) y = Inr y0"
    and run: "efold (ResizeX ish osh (ish ! GetHeightIndex l) (ish ! GetWidthIndex l) l m
             (fdiv binary32 (numeric_cast_float (ish ! GetWidthIndex l))
                            (numeric_cast_float (osh ! GetWidthIndex l)))
             n c y (ffloor (project (ish ! GetHeightIndex l) (osh ! GetHeightIndex l) y)) y0
             (weight (ish ! GetHeightIndex l) (osh ! GetHeightIndex l) y))
           [0..<osh ! GetWidthIndex l] s = Inr s'"
    by (auto simp: ResizeY_def texel_def project_def weight_def Let_def for_loop_efold
        split: sum.splits)
  show ?thesis
  proof (rule efold_wrote[OF _ run refl])
    fix i t t'
    assume t: "dec_data (fst t) = dec_data (fst s)"
      and "ResizeX ish osh (ish ! GetHeightIndex l) (ish ! GetWidthIndex l) l m
             (fdiv binary32 (numeric_cast_float (ish ! GetWidthIndex l))
                            (numeric_cast_float (osh ! GetWidthIndex l)))
             n c y (ffloor (project (ish ! GetHeightIndex l) (osh ! GetHeightIndex l) y)) y0
             (weight (ish ! GetHeightIndex l) (osh ! GetHeightIndex l) y) i t = Inr t'"
    from ResizeX_wrote[OF this(2) y0] t
    show "\<exists>ws. wrote t ws t' \<and> list_all2 (written (dec_data (fst s)) ish osh l m) ws [(n, c, y, i)]"
      by simp
  qed
qed

lemma Resize_wrote:
  assumes "Resize inp inputInfo out outputInfo l m = Inr s'"
  shows "\<exists>ws. wrote (inp, out) ws s' \<and>
           list_all2 (written (dec_data inp) (GetShape inputInfo) (GetShape outputInfo) l m) ws
             (coords (GetShape inputInfo ! 0) (GetShape inputInfo ! GetChannelsIndex l)
                     (GetShape outputInfo ! GetHeightIndex l)
                     (GetShape outputInfo ! GetWidthIndex l))"
proof -
  let ?ish = "GetShape inputInfo" and ?osh = "GetShape outputInfo"
  let ?Y = "ResizeY ?ish ?osh (?ish ! GetHeightIndex l) (?ish ! GetWidthIndex l)
             (?osh ! GetWidthIndex l) l m
             (fdiv binary32 (numeric_cast_float (?ish ! GetHeightIndex l))
                            (numeric_cast_float (?osh ! GetHeightIndex l)))
             (fdiv binary32 (numeric_cast_float (?ish ! GetWidthIndex l))
                            (numeric_cast_float (?osh ! GetWidthIndex l)))"
  let ?R = "written (dec_data inp) ?ish ?osh l m"
  let ?gy = "\<lambda>n c y. map (\<lambda>x. (n, c, y, x)) [0..<?osh ! GetWidthIndex l]"
  let ?gc = "\<lambda>n c. concat (map (?gy n c) [0..<?osh ! GetHeightIndex l])"
  let ?gn = "\<lambda>n. concat (map (?gc n) [0..<?ish ! GetChannelsIndex l])"
  have map1: "concat (map (\<lambda>x. [(n, c, y, x)]) xs) = map (\<lambda>x. (n, c, y, x)) xs"
    for n c y :: nat and xs :: "nat list"
    by (induction xs) auto
  have Y: "\<exists>ws. wrote s ws t \<and> list_all2 ?R ws (?gy n c y)"
    if "?Y n c y s = Inr t" "dec_data (fst s) = dec_data inp" for n c y s t
    using ResizeY_wrote[OF that(1)] that(2) by (simp add: map1)
  have C: "\<exists>ws. wrote s ws t \<and> list_all2 ?R ws (?gc n c)"
    if "efold (?Y n c) [0..<?osh ! GetHeightIndex l] s = Inr t"
       "dec_data (fst s) = dec_data inp" for n c s t
    by (rule efold_wrote[OF _ that]) (auto dest: Y)
  have N: "\<exists>ws. wrote s ws t \<and> list_all2 ?R ws (?gn n)"
    if "efold (\<lambda>c. efold (?Y n c) [0..<?osh ! GetHeightIndex l])
          [0..<?ish ! GetChannelsIndex l] s = Inr t"
       "dec_data (fst s) = dec_data inp" for n s t
    by (rule efold_wrote[OF _ that]) (auto dest: C)
  from assms have
    "efold (\<lambda>n. efold (\<lambda>c. efold (?Y n c) [0..<?osh ! GetHeightIndex l])
          [0..<?ish ! GetChannelsIndex l]) [0..<?ish ! 0] (inp, out) = Inr s'"
    by (simp add: Resize_def Let_def for_loop_efold[abs_def])
  then have "\<exists>ws. wrote (inp, out) ws s' \<and> list_all2 ?R ws (concat (map ?gn [0..<?ish ! 0]))"
    by (rule efold_wrote[OF _ _ refl, rotated]) (auto dest: N)
  then show ?thesis
    by (simp add: coords_def product_concat_map map_concat comp_def)
qed

lemma set_coords:
  "set (coords N C H W) = {(n, c, y, x). n < N \<and> c < C \<and> y < H \<and> x < W}"
  by (auto simp: coords_def)


lemma distinct_coords: "distinct (coords N C H W)"
  by (simp add: coords_def distinct_product)

lemma radix_unique:
  fixes a a' x x' d :: nat
  assumes "x < d" "x' < d" "a * d + x = a' * d + x'"
  shows "a = a' \<and> x = x'"
proof -
  have "(a * d + x) div d = a" "(a' * d + x') div d = a'"
    using assms(1,2) by simp_all
  with assms(3) have "a = a'" by simp
  with assms(3) show ?thesis by simp
qed

lemma GetIndex_inj:
  assumes "c < sh ! GetChannelsIndex l" "y < sh ! GetHeightIndex l" "x < sh ! GetWidthIndex l"
    and "c' < sh ! GetChannelsIndex l" "y' < sh ! GetHeightIndex l" "x' < sh ! GetWidthIndex l"
    and eq: "GetIndex l sh n c y x = GetIndex l sh n' c' y' x'"
  shows "n = n' \<and> c = c' \<and> y = y' \<and> x = x'"
proof (cases l)
  case NCHW
  have "((n * sh ! 1 + c) * sh ! 2 + y) * sh ! 3 + x =
        ((n' * sh ! 1 + c') * sh ! 2 + y') * sh ! 3 + x'"
    using eq by (simp add: GetIndex_def NCHW algebra_simps)
  from radix_unique[OF _ _ this] assms(3,6) NCHW
  have x: "x = x'" and 1: "(n * sh ! 1 + c) * sh ! 2 + y = (n' * sh ! 1 + c') * sh ! 2 + y'"
    by simp_all
  from radix_unique[OF _ _ 1] assms(2,5) NCHW
  have y: "y = y'" and 2: "n * sh ! 1 + c = n' * sh ! 1 + c'"
    by simp_all
  from radix_unique[OF _ _ 2] assms(1,4) NCHW x y show ?thesis
    by simp
next
  case NHWC
  have "((n * sh ! 1 + y) * sh ! 2 + x) * sh ! 3 + c =
        ((n' * sh ! 1 + y') * sh ! 2 + x') * sh ! 3 + c'"
    using eq by (simp add: GetIndex_def NHWC algebra_simps)
  from radix_unique[OF _ _ this] assms(1,4) NHWC
  have c: "c = c'" and 1: "(n * sh ! 1 + y) * sh ! 2 + x = (n' * sh ! 1 + y') * sh ! 2 + x'"
    by simp_all
  from radix_unique[OF _ _ 1] assms(3,6) NHWC
  have x: "x = x'" and 2: "n * sh ! 1 + y = n' * sh ! 1 + y'"
    by simp_all
  from radix_unique[OF _ _ 2] assms(2,5) NHWC c x show ?thesis
    by simp
qed

lemma offset_inj_on:
  assumes "C \<le> sh ! GetChannelsIndex l" "H \<le> sh ! GetHeightIndex l" "W \<le> sh ! GetWidthIndex l"
  shows "inj_on (offset l sh) (set (coords N C H W))"
proof (rule inj_onI)
  fix p q
  assume p: "p \<in> set (coords N C H W)" and q: "q \<in> set (coords N C H W)"
    and eq: "offset l sh p = offset l sh q"
  obtain n c y x where pp: "p = (n, c, y, x)" by (cases p)
  obtain n' c' y' x' where qq: "q = (n', c', y', x')" by (cases q)
  from p q assms have b: "c < sh ! GetChannelsIndex l" "y < sh ! GetHeightIndex l"
    "x < sh ! GetWidthIndex l" "c' < sh ! GetChannelsIndex l" "y' < sh ! GetHeightIndex l"
    "x' < sh ! GetWidthIndex l"
    by (auto simp: set_coords pp qq)
  from eq have "GetIndex l sh n c y x = GetIndex l sh n' c' y' x'"
    by (simp add: offset_def pp qq)
  from GetIndex_inj[OF b this] show "p = q"
    by (simp add: pp qq)
qed

lemma apply_writes_other:
  "i \<notin> fst ` set ws \<Longrightarrow> apply_writes ws d i = d i"
  unfolding apply_writes_def by (induction ws arbitrary: d) auto

lemma apply_writes_distinct:
  "distinct (map fst ws) \<Longrightarrow> w \<in> set ws \<Longrightarrow> apply_writes ws d (fst w) = snd w"
proof (induction ws arbitrary: d)
  case Nil
  then show ?case by simp
next
  case (Cons u us)
  show ?case
  proof (cases "w = u")
    case True
    with Cons.prems(1) have "fst w \<notin> fst ` set us" by auto
    from apply_writes_other[OF this] True show ?thesis
      by (simp add: apply_writes_def)
  next
    case False
    with Cons.prems have "distinct (map fst us)" "w \<in> set us" by auto
    from Cons.IH[OF this] show ?thesis
      by (simp add: apply_writes_def)
  qed
qed

lemma written_offsets:
  "list_all2 (written D ish osh l m) ws ps \<Longrightarrow> map fst ws = map (offset l osh) ps"
  by (induction rule: list_all2_induct) (auto simp: written_def offset_def)

lemma Resize_output:
  assumes run: "Resize inp inputInfo out outputInfo l m = Inr (inp', out')"
    and ch: "GetShape inputInfo ! GetChannelsIndex l \<le> GetShape outputInfo ! GetChannelsIndex l"
    and rng: "n < GetShape inputInfo ! 0" "c < GetShape inputInfo ! GetChannelsIndex l"
      "y < GetShape outputInfo ! GetHeightIndex l" "x < GetShape outputInfo ! GetWidthIndex l"
  shows "pixelValue (dec_data inp) (GetShape inputInfo) (GetShape outputInfo) l m n c y x =
         Inr (enc_data out' (GetIndex l (GetShape outputInfo) n c y x))"
proof -
  let ?ish = "GetShape inputInfo" and ?osh = "GetShape outputInfo"
  let ?ps = "coords (?ish ! 0) (?ish ! GetChannelsIndex l) (?osh ! GetHeightIndex l)
               (?osh ! GetWidthIndex l)"
  from Resize_wrote[OF run] obtain ws where
    w: "wrote (inp, out) ws (inp', out')"
    and a: "list_all2 (written (dec_data inp) ?ish ?osh l m) ws ?ps"
    by auto
  from rng have "(n, c, y, x) \<in> set ?ps"
    by (simp add: set_coords)
  then obtain k where k: "k < length ?ps" "?ps ! k = (n, c, y, x)"
    by (auto simp: in_set_conv_nth)
  from a k have wk: "written (dec_data inp) ?ish ?osh l m (ws ! k) (n, c, y, x)"
    and kw: "k < length ws"
    by (auto simp: list_all2_conv_all_nth)
  have "inj_on (offset l ?osh) (set ?ps)"
    by (rule offset_inj_on) (use ch in auto)
  then have "distinct (map fst ws)"
    unfolding written_offsets[OF a] by (simp add: distinct_map distinct_coords)
  from apply_writes_distinct[OF this nth_mem[OF kw]] w wk show ?thesis
    by (simp add: wrote_def written_def)
qed

lemma efold_returns:
  "(\<And>i s. i \<in> set xs \<Longrightarrow> \<exists>s'. body i s = Inr s') \<Longrightarrow> \<exists>s'. efold body xs s = Inr s'"
proof (induction xs arbitrary: s)
  case Nil
  then show ?case by simp
next
  case (Cons i js)
  from Cons.prems[of i s] obtain s1 where "body i s = Inr s1" by auto
  moreover from Cons.IH[of s1] Cons.prems obtain s2 where "efold body js s1 = Inr s2"
    by auto
  ultimately show ?case by simp
qed

lemma Resize_returns:
  assumes "\<And>y. y < GetShape outputInfo ! GetHeightIndex l \<Longrightarrow>
             \<exists>y0. texel (GetShape inputInfo ! GetHeightIndex l)
                         (GetShape outputInfo ! GetHeightIndex l) y = Inr y0"
    and "\<And>x. x < GetShape outputInfo ! GetWidthIndex l \<Longrightarrow>
             \<exists>x0. texel (GetShape inputInfo ! GetWidthIndex l)
                         (GetShape outputInfo ! GetWidthIndex l) x = Inr x0"
  shows "\<exists>s'. Resize inp inputInfo out outputInfo l m = Inr s'"
proof -
  have X: "\<exists>s'. ResizeX ish osh ih (GetShape inputInfo ! GetWidthIndex l) l m
             (fdiv binary32 (numeric_cast_float (GetShape inputInfo ! GetWidthIndex l))
                            (numeric_cast_float (GetShape outputInfo ! GetWidthIndex l)))
             n c y fiy y0 yw x s = Inr s'"
    if "x < GetShape outputInfo ! GetWidthIndex l" for ish osh ih n c y fiy y0 yw x s
    using assms(2)[OF that]
    by (cases s) (auto simp: ResizeX_unfold texel_def project_def)
  have Y: "\<exists>s'. ResizeY ish osh (GetShape inputInfo ! GetHeightIndex l)
             (GetShape inputInfo ! GetWidthIndex l) (GetShape outputInfo ! GetWidthIndex l) l m
             (fdiv binary32 (numeric_cast_float (GetShape inputInfo ! GetHeightIndex l))
                            (numeric_cast_float (GetShape outputInfo ! GetHeightIndex l)))
             (fdiv binary32 (numeric_cast_float (GetShape inputInfo ! GetWidthIndex l))
                            (numeric_cast_float (GetShape outputInfo ! GetWidthIndex l)))
             n c y s = Inr s'"
    if "y < GetShape outputInfo ! GetHeightIndex l" for ish osh n c y s
  proof -
    from assms(1)[OF that] obtain y0 where
      "numeric_cast_uint (ffloor (fmul binary32 (numeric_cast_float y)
         (fdiv binary32 (numeric_cast_float (GetShape inputInfo ! GetHeightIndex l))
                        (numeric_cast_float (GetShape outputInfo ! GetHeightIndex l))))) = Inr y0"
      by (auto simp: texel_def project_def)
    then show ?thesis
      unfolding ResizeY_def Let_def for_loop_efold
      by (simp only: sum.case) (rule efold_returns, rule X, simp)
  qed
  show ?thesis
    unfolding Resize_def Let_def for_loop_efold[abs_def]
    by (intro efold_returns Y) auto
qed

section \<open>The fallback of the method switch\<close>

lemma interpolate_Unrecognized:
  "interpolate inp sh l (Unrecognized k) n c fix fiy xw yw x0 y0 x1 y1 =
   interpolate inp sh l NearestNeighbor n c fix fiy xw yw x0 y0 x1 y1"
  by (simp add: interpolate_def)

lemma ResizeX_Unrecognized:
  "ResizeX ish osh ih iw l (Unrecognized k) sx = ResizeX ish osh ih iw l NearestNeighbor sx"
  by (intro ext) (unfold ResizeX_def interpolate_Unrecognized, rule refl)

lemma ResizeY_Unrecognized:
  "ResizeY ish osh ih iw ow l (Unrecognized k) sy sx =
   ResizeY ish osh ih iw ow l NearestNeighbor sy sx"
  by (intro ext) (unfold ResizeY_def ResizeX_Unrecognized, rule refl)

text \<open>
  C9: with a method value other than Bilinear and NearestNeighbor the kernel does
  what it does with NearestNeighbor: the same result, exception or final reader
  and writer, for every input.
\<close>

theorem Resize_Unrecognized_falls_back:
  "Resize inp inputInfo out outputInfo dataLayout (Unrecognized k) =
   Resize inp inputInfo out outputInfo dataLayout NearestNeighbor"
  unfolding Resize_def ResizeY_Unrecognized by (rule refl)

section \<open>Rounding\<close>

lemma rhe_of_int: "rhe (of_int k) = k"
  by (simp add: rhe_def)

lemma rhe_le: "r \<le> of_int z \<Longrightarrow> rhe r \<le> z"
proof -
  assume a: "r \<le> of_int z"
  then have f: "\<lfloor>r\<rfloor> \<le> z" by (simp add: floor_le_iff)
  show ?thesis
  proof (cases "r = of_int \<lfloor>r\<rfloor>")
    case True
    then have "rhe r = \<lfloor>r\<rfloor>"
      by (metis rhe_of_int)
    with f show ?thesis by simp
  next
    case False
    moreover have "of_int \<lfloor>r\<rfloor> \<le> r"
      by (rule of_int_floor_le)
    ultimately have "of_int \<lfloor>r\<rfloor> < r"
      by (rule_tac order.not_eq_order_implies_strict) auto
    with a have "\<lfloor>r\<rfloor> < z"
      by (metis (no_types) less_le_trans of_int_less_iff)
    moreover have "rhe r \<le> \<lfloor>r\<rfloor> + 1"
      by (simp add: rhe_def Let_def)
    ultimately show ?thesis by linarith
  qed
qed

lemma rhe_ge: "of_int z \<le> r \<Longrightarrow> z \<le> rhe r"
proof -
  assume "of_int z \<le> r"
  then have "z \<le> \<lfloor>r\<rfloor>" by (simp add: le_floor_iff)
  moreover have "\<lfloor>r\<rfloor> \<le> rhe r"
    by (simp add: rhe_def Let_def)
  ultimately show ?thesis by linarith
qed

lemma ilog2_bounds:
  assumes "0 < q"
  shows "2 powi ilog2 q \<le> q" and "q < 2 powi (ilog2 q + 1)"
proof -
  obtain a b where ab: "quotient_of q = (a, b)" by (cases "quotient_of q")
  then have b: "0 < b" and q: "q = of_int a / of_int b"
    by (auto dest: quotient_of_denom_pos quotient_of_div)
  with assms have a: "0 < a"
    by (simp add: zero_less_divide_iff)
  define la lb where "la = bitlen a" and "lb = bitlen b"
  from bitlen_bounds[OF a] bitlen_bounds[OF b]
  have ia: "2 ^ nat (la - 1) \<le> a" "a < 2 ^ nat la"
    and ib: "2 ^ nat (lb - 1) \<le> b" "b < 2 ^ nat lb"
    by (simp_all add: la_def lb_def)
  have la: "1 \<le> la"
  proof (rule ccontr)
    assume "\<not> 1 \<le> la"
    then have "nat la = 0" by simp
    with ia(2) a show False by simp
  qed
  have lb: "1 \<le> lb"
  proof (rule ccontr)
    assume "\<not> 1 \<le> lb"
    then have "nat lb = 0" by simp
    with ib(2) b show False by simp
  qed
  have ra: "(2::rat) powi (la - 1) \<le> of_int a" "(of_int a :: rat) < 2 powi la"
    using ia la
    by (simp_all add: power_int_nonneg_exp)
  have rb: "(2::rat) powi (lb - 1) \<le> of_int b" "(of_int b :: rat) < 2 powi lb"
    using ib lb
    by (simp_all add: power_int_nonneg_exp)
  have bpos: "(0::rat) < of_int b" using b by simp
  have up: "q < 2 powi (la - lb + 1)"
  proof -
    have "(of_int a :: rat) < 2 powi la" by (rule ra(2))
    also have "\<dots> = 2 powi (la - lb + 1) * 2 powi (lb - 1)"
      by (simp flip: power_int_add)
    also have "\<dots> \<le> 2 powi (la - lb + 1) * of_int b"
      by (rule mult_left_mono[OF rb(1)]) simp
    finally show ?thesis
      using bpos by (simp add: q pos_divide_less_eq)
  qed
  have lo: "2 powi (la - lb - 1) \<le> q"
  proof -
    have "(2::rat) powi (la - lb - 1) * of_int b \<le> 2 powi (la - lb - 1) * 2 powi lb"
      by (rule mult_left_mono) (use rb(2) in simp_all)
    also have "\<dots> = 2 powi (la - 1)"
      by (simp flip: power_int_add)
    also have "\<dots> \<le> of_int a" by (rule ra(1))
    finally show ?thesis
      using bpos by (simp add: q pos_le_divide_eq)
  qed
  have il: "ilog2 q = (if 2 powi (la - lb) \<le> q then la - lb else la - lb - 1)"
    by (simp add: ilog2_def ab la_def lb_def Let_def)
  show "2 powi ilog2 q \<le> q"
    using lo by (simp add: il)
  show "q < 2 powi (ilog2 q + 1)"
    using up by (simp add: il not_le)
qed

lemma ilog2_less:
  assumes "0 < q" "q < 2 powi k"
  shows "ilog2 q < k"
proof (rule ccontr)
  assume "\<not> ilog2 q < k"
  then have "(2::rat) powi k \<le> 2 powi ilog2 q"
    by (intro power_int_increasing) simp_all
  with ilog2_bounds(1)[OF assms(1)] assms(2) show False by simp
qed

lemma round_to_zero: "round_to f s 0 = Finite s 0"
  by (simp add: round_to_def Let_def rhe_def not_le)

lemma round_exact:
  assumes m: "0 \<le> m" "m < 2 ^ prec f"
    and e: "qmin f \<le> e"
    and r: "of_int m * 2 powi e < (2::rat) powi (emax f + 1)"
  shows "round_to f s (of_int m * 2 powi e) = Finite s (of_int m * 2 powi e)"
proof (cases "m = 0")
  case True
  then show ?thesis by (simp add: round_to_zero)
next
  case False
  let ?v = "of_int m * 2 powi e :: rat"
  define e0 where "e0 = max (ilog2 ?v - (int (prec f) - 1)) (qmin f)"
  from False m have mpos: "0 < m" by simp
  then have vpos: "0 < ?v" by simp
  have "(of_int m :: rat) < 2 ^ prec f"
    using m(2) by (metis of_int_less_iff of_int_numeral of_int_power)
  then have "?v < 2 powi (int (prec f)) * 2 powi e"
    by (intro mult_strict_right_mono) simp_all
  also have "\<dots> = 2 powi (int (prec f) + e)"
    by (simp add: power_int_add)
  finally have "ilog2 ?v < int (prec f) + e"
    by (rule ilog2_less[OF vpos])
  with e have le: "e0 \<le> e" by (simp add: e0_def)
  have "?v / 2 powi e0 = of_int m * 2 powi (e - e0)"
    by (simp add: power_int_diff)
  also have "\<dots> = of_int (m * 2 ^ nat (e - e0))"
    using le by (simp add: power_int_nonneg_exp)
  finally have "rhe (?v / 2 powi e0) = m * 2 ^ nat (e - e0)"
    by (simp only: rhe_of_int)
  then have "of_int (rhe (?v / 2 powi e0)) * 2 powi e0 = of_int m * 2 powi (e - e0) * (2::rat) powi e0"
    using le by (simp add: power_int_nonneg_exp)
  also have "\<dots> = ?v"
    by (simp add: power_int_diff)
  finally show ?thesis
    using r unfolding round_to_def Let_def e0_def[symmetric] by (simp add: not_le)
qed

lemma round_to_cases:
  assumes "0 \<le> q" "0 < prec f"
  shows "round_to f s q = Infty s \<or>
         (\<exists>m e. round_to f s q = Finite s (of_int m * 2 powi e) \<and> 0 \<le> m \<and> m < 2 ^ prec f \<and>
                 qmin f \<le> e \<and> of_int m * 2 powi e < (2::rat) powi (emax f + 1))"
proof (cases "q = 0")
  case True
  have "round_to f s 0 = Finite s (of_int 0 * 2 powi qmin f)"
    by (simp add: round_to_zero)
  moreover have "(of_int 0 * 2 powi qmin f :: rat) < 2 powi (emax f + 1)" by simp
  ultimately show ?thesis
    unfolding True by (intro disjI2 exI[of _ 0] exI[of _ "qmin f"]) simp
next
  case False
  with assms have qpos: "0 < q" by simp
  define e0 where "e0 = max (ilog2 q - (int (prec f) - 1)) (qmin f)"
  define m0 where "m0 = rhe (q / 2 powi e0)"
  have rt: "round_to f s q = (if (2::rat) powi (emax f + 1) \<le> of_int m0 * 2 powi e0 then Infty s
                              else Finite s (of_int m0 * 2 powi e0))"
    by (simp add: round_to_def Let_def e0_def m0_def)
  have e0: "qmin f \<le> e0" "ilog2 q + 1 - int (prec f) \<le> e0"
    by (simp_all add: e0_def)
  have "q < 2 powi (ilog2 q + 1)" by (rule ilog2_bounds(2)[OF qpos])
  also have "\<dots> \<le> 2 powi (e0 + int (prec f))"
    by (rule power_int_increasing) (use e0(2) in simp_all)
  also have "\<dots> = 2 powi e0 * 2 ^ prec f"
    by (simp add: power_int_add)
  finally have "q / 2 powi e0 \<le> 2 ^ prec f"
    by (simp add: pos_divide_le_eq mult.commute)
  then have "q / 2 powi e0 \<le> of_int (2 ^ prec f)" by simp
  then have mle: "m0 \<le> 2 ^ prec f"
    unfolding m0_def by (rule rhe_le)
  have "of_int 0 \<le> q / 2 powi e0" using qpos by simp
  then have m0: "0 \<le> m0" unfolding m0_def by (rule rhe_ge)
  show ?thesis
  proof (cases "(2::rat) powi (emax f + 1) \<le> of_int m0 * 2 powi e0")
    case True
    then show ?thesis by (simp add: rt)
  next
    case nov: False
    show ?thesis
    proof (cases "m0 = 2 ^ prec f")
      case True
      obtain p where p: "prec f = Suc p" using assms(2) by (cases "prec f") auto
      have "(of_int m0 * 2 powi e0 :: rat) = of_int (2 ^ p) * 2 powi (e0 + 1)"
        by (simp add: True p power_int_add)
      moreover have "(2::int) ^ p < 2 ^ prec f" by (simp add: p)
      ultimately show ?thesis
        using nov e0(1) rt
        by (intro disjI2 exI[of _ "2 ^ p"] exI[of _ "e0 + 1"]) (simp add: not_le)
    next
      case False
      with mle have "m0 < 2 ^ prec f" by simp
      then show ?thesis
        using nov e0(1) m0 rt
        by (intro disjI2 exI[of _ m0] exI[of _ e0]) (simp add: not_le)
    qed
  qed
qed

section \<open>The error of rounding\<close>

text \<open>
  Rounding to nearest moves a magnitude of the normal range by at most the relative
  error \<open>2 ^ - prec\<close>, and any magnitude by at most that plus half a unit of the
  subnormal range.
\<close>

lemma rhe_near: "of_int (rhe r) \<le> r + 1/2" "r - 1/2 \<le> of_int (rhe r)"
proof -
  have f: "of_int \<lfloor>r\<rfloor> \<le> r" "r < of_int \<lfloor>r\<rfloor> + 1"
    by linarith+
  have u: "rhe r = \<lfloor>r\<rfloor> \<or> (rhe r = \<lfloor>r\<rfloor> + 1 \<and> 1/2 \<le> r - of_int \<lfloor>r\<rfloor>)"
    by (auto simp: rhe_def Let_def not_less)
  have d: "rhe r = \<lfloor>r\<rfloor> + 1 \<or> (rhe r = \<lfloor>r\<rfloor> \<and> r - of_int \<lfloor>r\<rfloor> \<le> 1/2)"
    by (auto simp: rhe_def Let_def not_less)
  from u show "of_int (rhe r) \<le> r + 1/2"
  proof
    assume "rhe r = \<lfloor>r\<rfloor>"
    then have "(of_int (rhe r) :: rat) = of_int \<lfloor>r\<rfloor>" by simp
    with f(1) show ?thesis by linarith
  next
    assume a: "rhe r = \<lfloor>r\<rfloor> + 1 \<and> 1/2 \<le> r - of_int \<lfloor>r\<rfloor>"
    then have "(of_int (rhe r) :: rat) = of_int \<lfloor>r\<rfloor> + 1" by simp
    with a show ?thesis by linarith
  qed
  from d show "r - 1/2 \<le> of_int (rhe r)"
  proof
    assume "rhe r = \<lfloor>r\<rfloor> + 1"
    then have "(of_int (rhe r) :: rat) = of_int \<lfloor>r\<rfloor> + 1" by simp
    with f(2) show ?thesis by linarith
  next
    assume a: "rhe r = \<lfloor>r\<rfloor> \<and> r - of_int \<lfloor>r\<rfloor> \<le> 1/2"
    then have "(of_int (rhe r) :: rat) = of_int \<lfloor>r\<rfloor>" by simp
    with a show ?thesis by linarith
  qed
qed

lemma ilog2_ge:
  assumes "0 < q" "2 powi k \<le> q"
  shows "k \<le> ilog2 q"
proof (rule ccontr)
  assume "\<not> k \<le> ilog2 q"
  then have "(2::rat) powi (ilog2 q + 1) \<le> 2 powi k"
    by (intro power_int_increasing) simp_all
  with ilog2_bounds(2)[OF assms(1)] assms(2) show False by simp
qed

lemma round_to_rel:
  assumes lo: "2 powi (qmin f + int (prec f) - 1) \<le> q"
    and hi: "q * (1 + 2 powi (- int (prec f))) < 2 powi (emax f + 1)"
  shows "\<exists>r. round_to f s q = Finite s r \<and> q * (1 - 2 powi (- int (prec f))) \<le> r \<and>
             r \<le> q * (1 + 2 powi (- int (prec f)))"
proof -
  have qpos: "0 < q"
    using lo by (rule less_le_trans[rotated]) simp
  define e0 where "e0 = ilog2 q - (int (prec f) - 1)"
  from ilog2_ge[OF qpos lo] have "max (ilog2 q - (int (prec f) - 1)) (qmin f) = e0"
    by (simp add: e0_def)
  then have rt: "round_to f s q =
      (if (2::rat) powi (emax f + 1) \<le> of_int (rhe (q / 2 powi e0)) * 2 powi e0 then Infty s
       else Finite s (of_int (rhe (q / 2 powi e0)) * 2 powi e0))"
    by (simp add: round_to_def Let_def)
  define r where "r = of_int (rhe (q / 2 powi e0)) * (2::rat) powi e0"
  have pe: "(0::rat) < 2 powi e0" by simp
  have e0': "e0 = ilog2 q + (1 - int (prec f))"
    by (simp add: e0_def)
  have "(2::rat) powi e0 = 2 powi ilog2 q * 2 powi (1 - int (prec f))"
    unfolding e0' by (rule power_int_add) simp
  also have "\<dots> \<le> q * 2 powi (1 - int (prec f))"
    by (intro mult_right_mono ilog2_bounds(1)[OF qpos]) simp
  finally have he: "(2::rat) powi e0 / 2 \<le> q * 2 powi (- int (prec f))"
    by (simp add: power_int_diff power_int_minus_divide field_simps)
  have "r \<le> (q / 2 powi e0 + 1/2) * 2 powi e0"
    unfolding r_def by (intro mult_right_mono rhe_near(1)) simp
  also have "\<dots> = q + 2 powi e0 / 2"
    using pe by (simp add: field_simps)
  finally have up: "r \<le> q * (1 + 2 powi (- int (prec f)))"
    using he by (simp add: algebra_simps)
  have "q - 2 powi e0 / 2 = (q / 2 powi e0 - 1/2) * 2 powi e0"
    using pe by (simp add: field_simps)
  also have "\<dots> \<le> r"
    unfolding r_def by (intro mult_right_mono rhe_near(2)) simp
  finally have dn: "q * (1 - 2 powi (- int (prec f))) \<le> r"
    using he by (simp add: algebra_simps)
  from up hi have "r < 2 powi (emax f + 1)" by simp
  then have "round_to f s q = Finite s r"
    by (simp add: rt r_def not_le)
  with up dn show ?thesis by blast
qed


lemma round_to_upper:
  assumes q: "0 \<le> q"
    and hi: "q * (1 + 2 powi (- int (prec f))) + 2 powi (qmin f - 1) < 2 powi (emax f + 1)"
  shows "\<exists>r. round_to f s q = Finite s r \<and> 0 \<le> r \<and>
             r \<le> q * (1 + 2 powi (- int (prec f))) + 2 powi (qmin f - 1)"
proof (cases "q = 0")
  case True
  then show ?thesis by (simp add: round_to_zero)
next
  case False
  with q have qpos: "0 < q" by simp
  define e0 where "e0 = max (ilog2 q - (int (prec f) - 1)) (qmin f)"
  define r where "r = of_int (rhe (q / 2 powi e0)) * (2::rat) powi e0"
  have rt: "round_to f s q = (if (2::rat) powi (emax f + 1) \<le> r then Infty s else Finite s r)"
    by (simp add: round_to_def Let_def e0_def r_def)
  have pe: "(0::rat) < 2 powi e0" by simp
  have e1: "ilog2 q - (int (prec f) - 1) = ilog2 q + (1 - int (prec f))" by simp
  have "(2::rat) powi (ilog2 q - (int (prec f) - 1)) = 2 powi ilog2 q * 2 powi (1 - int (prec f))"
    unfolding e1 by (rule power_int_add) simp
  also have "\<dots> \<le> q * 2 powi (1 - int (prec f))"
    by (intro mult_right_mono ilog2_bounds(1)[OF qpos]) simp
  finally have n: "(2::rat) powi (ilog2 q - (int (prec f) - 1)) \<le> q * 2 powi (1 - int (prec f))" .
  have "(2::rat) powi e0 \<le> q * 2 powi (1 - int (prec f)) + 2 powi qmin f"
  proof (cases "ilog2 q - (int (prec f) - 1) \<le> qmin f")
    case True
    then have "e0 = qmin f" by (simp add: e0_def)
    moreover have "0 \<le> q * 2 powi (1 - int (prec f))" using q by simp
    ultimately show ?thesis by simp
  next
    case False
    then have "e0 = ilog2 q - (int (prec f) - 1)" by (simp add: e0_def)
    with n show ?thesis
      by (simp add: add_increasing2)
  qed
  then have he: "(2::rat) powi e0 / 2 \<le> q * 2 powi (- int (prec f)) + 2 powi (qmin f - 1)"
    by (simp add: power_int_diff power_int_minus_divide field_simps)
  have "r \<le> (q / 2 powi e0 + 1/2) * 2 powi e0"
    unfolding r_def by (intro mult_right_mono rhe_near(1)) simp
  also have "\<dots> = q + 2 powi e0 / 2"
    using pe by (simp add: field_simps)
  finally have up: "r \<le> q * (1 + 2 powi (- int (prec f))) + 2 powi (qmin f - 1)"
    using he by (simp add: algebra_simps)
  have "of_int 0 \<le> q / 2 powi e0" using q by simp
  then have "0 \<le> rhe (q / 2 powi e0)" by (rule rhe_ge)
  then have r0: "0 \<le> r" by (simp add: r_def)
  from up hi have "r < 2 powi (emax f + 1)" by simp
  then have "round_to f s q = Finite s r"
    by (simp add: rt not_le)
  with up r0 show ?thesis by blast
qed


section \<open>Values of the format and the distance to the floored coordinate\<close>

lemma prec_binary32 [simp]: "prec binary32 = 24" "emax binary32 = 127" "qmin binary32 = - 149"
  by (simp_all add: binary32_def qmin_def)

lemma prec_binary64 [simp]: "prec binary64 = 53" "emax binary64 = 1023" "qmin binary64 = - 1074"
  by (simp_all add: binary64_def qmin_def)

lemma round_to_is_float:
  assumes "0 \<le> q" "0 < prec f"
  shows "is_float f (round_to f s q)"
proof -
  from round_to_cases[OF assms, of s] show ?thesis
  proof
    assume "round_to f s q = Infty s"
    then show ?thesis by (simp add: is_float_def)
  next
    assume "\<exists>m e. round_to f s q = Finite s (of_int m * 2 powi e) \<and> 0 \<le> m \<and> m < 2 ^ prec f \<and>
                 qmin f \<le> e \<and> of_int m * 2 powi e < (2::rat) powi (emax f + 1)"
    then obtain m e where *: "round_to f s q = Finite s (of_int m * 2 powi e)" "0 \<le> m"
      "m < 2 ^ prec f" "qmin f \<le> e" "of_int m * 2 powi e < (2::rat) powi (emax f + 1)"
      by blast
    from round_exact[OF *(2-5), of s] *(1,2) show ?thesis
      by (simp add: is_float_def)
  qed
qed

lemma round_to_shape: "round_to f s q = Infty s \<or> (\<exists>r. round_to f s q = Finite s r)"
  by (simp add: round_to_def Let_def)

lemma round_to_nonneg: "0 \<le> q \<Longrightarrow> fnonneg (round_to f False q)"
proof -
  assume "0 \<le> q"
  then have "of_int 0 \<le> q / 2 powi e" for e by simp
  then have "0 \<le> rhe (q / 2 powi e)" for e by (rule rhe_ge)
  then show ?thesis
    by (simp add: round_to_def Let_def fnonneg_def)
qed

lemma numeric_cast_float_is_float: "is_float binary32 (numeric_cast_float n)"
  unfolding numeric_cast_float_def by (rule round_to_is_float) simp_all

lemma numeric_cast_float_shape:
  "numeric_cast_float n = Infty False \<or> (\<exists>r\<ge>0. numeric_cast_float n = Finite False r)"
  using round_to_nonneg[of "of_nat n" binary32] round_to_shape[of binary32 False "of_nat n"]
  by (auto simp: numeric_cast_float_def fnonneg_def)

lemma fmul_is_float:
  assumes "is_float f a" "is_float f b" "0 < prec f"
  shows "is_float f (fmul f a b)"
proof (cases a)
  case (Finite s p)
  note a = this
  show ?thesis
  proof (cases b)
    case (Finite t q)
    with a assms(1,2) have "0 \<le> p * q" by (simp add: is_float_def)
    from round_to_is_float[OF this assms(3)] a Finite show ?thesis by simp
  qed (simp_all add: a is_float_def)
qed (cases b; simp add: is_float_def)+

lemma fdiv_is_float:
  assumes "is_float f a" "is_float f b" "0 < prec f"
  shows "is_float f (fdiv f a b)"
proof (cases a)
  case (Finite s p)
  note a = this
  show ?thesis
  proof (cases b)
    case (Finite t q)
    with a assms(1,2) have "0 \<le> p / q" by (simp add: is_float_def)
    from round_to_is_float[OF this assms(3)] a Finite show ?thesis
      by (simp add: is_float_def round_to_zero)
  qed (simp_all add: a is_float_def round_to_zero)
qed (cases b; simp add: is_float_def)+

lemma project_is_float: "is_float binary32 (project i o' x)"
  unfolding project_def
  by (intro fmul_is_float fdiv_is_float numeric_cast_float_is_float) simp_all

lemma numeric_cast_float_exact:
  assumes "n \<le> 16777216"
  shows "numeric_cast_float n = Finite False (of_nat n)"
proof (cases "n = 16777216")
  case True
  have "round_to binary32 False (of_int 8388608 * 2 powi 1) = Finite False (of_int 8388608 * 2 powi 1)"
    by (rule round_exact) simp_all
  then show ?thesis by (simp add: numeric_cast_float_def True)
next
  case False
  with assms have n: "int n < 2 ^ prec binary32" by simp
  then have "(of_int (int n) :: rat) < of_int (2 ^ 24)"
    by (simp only: of_int_less_iff prec_binary32)
  then have "(of_int (int n) * 2 powi 0 :: rat) < 2 powi (emax binary32 + 1)"
    by simp
  from round_exact[OF _ n _ this, of False] show ?thesis
    by (simp add: numeric_cast_float_def)
qed

text \<open>A floored value that converts to an unsigned integer converts back exactly.\<close>

lemma floor_cast:
  assumes fl: "is_float binary32 a"
    and cast: "numeric_cast_uint (ffloor a) = Inr k"
  shows "\<exists>s. ffloor a = Finite s (of_nat k) \<and> (s \<longrightarrow> k = 0) \<and>
             numeric_cast_float k = Finite False (of_nat k)"
proof -
  from cast obtain s q where a: "a = Finite s q"
    by (cases a) (auto simp: numeric_cast_uint_def)
  with fl have q: "0 \<le> q" and rq: "round_to binary32 s q = Finite s q"
    by (simp_all add: is_float_def)
  define z where "z = \<lfloor>valof s q\<rfloor>"
  show ?thesis
  proof (cases "z = 0")
    case True
    with cast have "k = 0"
      by (simp add: a z_def numeric_cast_uint_def valof_def split: if_splits)
    with True show ?thesis
      by (simp add: a z_def numeric_cast_float_def round_to_zero)
  next
    case False
    then have fa: "ffloor a = Finite (z < 0) (of_int \<bar>z\<bar>)"
      by (simp add: a z_def Let_def)
    have zpos: "0 < z"
    proof (rule ccontr)
      assume "\<not> 0 < z"
      with False have "z \<le> - 1" by simp
      then have "valof (z < 0) (of_int \<bar>z\<bar>) \<le> - 1"
        by (simp add: valof_def)
      with cast fa show False
        by (simp add: numeric_cast_uint_def)
    qed
    with cast fa have k: "k = nat z"
      by (simp add: numeric_cast_uint_def valof_def split: if_splits)
    from zpos have s: "\<not> s"
      using q by (auto simp: z_def valof_def split: if_splits)
    then have zq: "z = \<lfloor>q\<rfloor>" by (simp add: z_def valof_def)
    from round_to_cases[OF q, of binary32 s] rq obtain m e where
      me: "q = of_int m * 2 powi e" "0 \<le> m" "m < 2 ^ 24" "- 149 \<le> e"
      by auto
    have "round_to binary32 False (of_int z) = Finite False (of_int z)"
    proof (cases "0 \<le> e")
      case True
      then have "q = of_int (m * 2 ^ nat e)"
        by (simp add: me(1) power_int_nonneg_exp)
      then have "of_int z = q" by (simp add: zq)
      with rq s show ?thesis by simp
    next
      case False
      then have "(2::rat) powi e \<le> 2 powi 0"
        by (intro power_int_increasing) simp_all
      then have "(2::rat) powi e \<le> 1" by simp
      then have "q \<le> of_int m * 1"
        unfolding me(1) by (intro mult_left_mono) (use me(2) in simp_all)
      then have "z \<le> m"
        by (simp add: zq floor_le_iff)
      with me(3) have z24: "z < 2 ^ 24" by simp
      then have "(of_int z :: rat) < of_int (2 ^ 24)"
        by (simp only: of_int_less_iff)
      then have "(of_int z * 2 powi 0 :: rat) < 2 powi (emax binary32 + 1)"
        by simp
      from round_exact[OF _ _ _ this, of False] zpos z24 show ?thesis
        by simp
    qed
    with zpos show ?thesis
      by (intro exI[of _ False]) (simp add: fa k numeric_cast_float_def)
  qed
qed


lemma isqrt_nonneg: "0 \<le> n \<Longrightarrow> 0 \<le> isqrt n"
proof (induction n rule: isqrt.induct)
  case (1 n)
  show ?case
  proof (cases "n < 2")
    case True
    with 1 show ?thesis by (subst isqrt.simps) simp
  next
    case False
    then have "0 \<le> isqrt (n div 4)" by (intro 1) simp_all
    with False show ?thesis by (subst isqrt.simps) (simp add: Let_def)
  qed
qed

lemma round_sqrt_nonneg: "0 \<le> q \<Longrightarrow> fnonneg (round_sqrt f q)"
proof -
  assume "0 \<le> q"
  then have "0 \<le> \<lfloor>q / 4 powi e\<rfloor>" for e by simp
  then have "0 \<le> isqrt \<lfloor>q / 4 powi e\<rfloor>" for e by (rule isqrt_nonneg)
  then show ?thesis
    by (simp add: round_sqrt_def Let_def fnonneg_def)
qed

lemma fsqrt_nonneg: "fnonneg a \<Longrightarrow> fnonneg (fsqrt f a)"
  by (cases a) (auto simp: fnonneg_def round_sqrt_nonneg[unfolded fnonneg_def] split: float.splits
      intro: round_sqrt_nonneg)

lemma fadd_nonneg: "fnonneg a \<Longrightarrow> fnonneg b \<Longrightarrow> fnonneg (fadd f a b)"
proof (cases a; cases b)
  fix s p t q
  assume "fnonneg a" "fnonneg b" "a = Finite s p" "b = Finite t q"
  then have *: "\<not> s" "\<not> t" "0 \<le> p" "0 \<le> q" "a = Finite False p" "b = Finite False q"
    by (simp_all add: fnonneg_def)
  then have "0 \<le> p + q" by simp
  from round_to_nonneg[OF this, of f] * show "fnonneg (fadd f a b)"
    by (auto simp: valof_def Let_def fnonneg_def not_less)
qed (simp_all add: fnonneg_def)

lemma pow2_nonneg: "d \<noteq> NaN \<Longrightarrow> fnonneg (pow2 d)"
proof (cases d)
  case (Finite s q)
  have "0 \<le> q * q" by simp
  from round_to_nonneg[OF this, of binary64] Finite show ?thesis
    by (simp add: pow2_def)
qed (simp_all add: pow2_def fnonneg_def)

lemma fsub_not_NaN:
  "fsub binary32 (Finite s q) (numeric_cast_float n) \<noteq> NaN"
  using numeric_cast_float_shape[of n] round_to_shape[of binary32]
  by (auto simp: fsub_def Let_def) (metis float.distinct(1,3))+

lemma distance_nonneg: "fnonneg (distance (Finite s p) (Finite t q) x y)"
  unfolding distance_def
  by (intro fsqrt_nonneg fadd_nonneg pow2_nonneg fsub_not_NaN)

lemma fle_zero_nonneg: "fnonneg d \<Longrightarrow> fle (Finite False 0) d"
  by (cases d) (simp_all add: fnonneg_def valof_def)

lemma distance_zero:
  assumes "fix = Finite s (of_nat x0)" "s \<longrightarrow> x0 = 0" "numeric_cast_float x0 = Finite False (of_nat x0)"
    and "fiy = Finite t (of_nat y0)" "t \<longrightarrow> y0 = 0" "numeric_cast_float y0 = Finite False (of_nat y0)"
  shows "distance fix fiy x0 y0 = Finite False 0"
proof -
  have "fsub binary32 fix (numeric_cast_float x0) = Finite s 0"
    using assms(1-3) by (cases s) (simp_all add: fsub_def valof_def)
  moreover have "fsub binary32 fiy (numeric_cast_float y0) = Finite t 0"
    using assms(4-6) by (cases t) (simp_all add: fsub_def valof_def)
  ultimately show ?thesis
    by (simp add: distance_def pow2_def round_to_zero valof_def)
qed

lemma nearest_first:
  assumes "is_float binary32 a" "numeric_cast_uint (ffloor a) = Inr x0"
    and "is_float binary32 b" "numeric_cast_uint (ffloor b) = Inr y0"
  shows "distance (ffloor a) (ffloor b) x0 y0 = Finite False 0"
    and "fle (distance (ffloor a) (ffloor b) x0 y0) (distance (ffloor a) (ffloor b) x1 y1)"
proof -
  from floor_cast[OF assms(1,2)] obtain s where
    s: "ffloor a = Finite s (of_nat x0)" "s \<longrightarrow> x0 = 0"
       "numeric_cast_float x0 = Finite False (of_nat x0)"
    by blast
  from floor_cast[OF assms(3,4)] obtain t where
    t: "ffloor b = Finite t (of_nat y0)" "t \<longrightarrow> y0 = 0"
       "numeric_cast_float y0 = Finite False (of_nat y0)"
    by blast
  show 0: "distance (ffloor a) (ffloor b) x0 y0 = Finite False 0"
    by (rule distance_zero[OF s t])
  have "fnonneg (distance (ffloor a) (ffloor b) x1 y1)"
    unfolding s(1) t(1) by (rule distance_nonneg)
  then show "fle (distance (ffloor a) (ffloor b) x0 y0) (distance (ffloor a) (ffloor b) x1 y1)"
    unfolding 0 by (rule fle_zero_nonneg)
qed

section \<open>Bounds on the single-precision conversions\<close>

lemma round32_upper:
  assumes "0 \<le> q" "q \<le> 2 ^ 100"
  shows "\<exists>r. round_to binary32 s q = Finite s r \<and> 0 \<le> r \<and>
             r \<le> q * (16777217 / 16777216) + 1 / 2 ^ 150"
proof -
  have "q * (1 + 2 powi (- int (prec binary32))) + 2 powi (qmin binary32 - 1)
          \<le> 2 ^ 100 * (1 + 2 powi (- int (prec binary32))) + 2 powi (qmin binary32 - 1)"
    by (intro add_right_mono mult_right_mono assms(2)) simp
  also have "\<dots> < 2 powi (emax binary32 + 1)"
    by (simp add: power_int_minus_divide)
  finally have "q * (1 + 2 powi (- int (prec binary32))) + 2 powi (qmin binary32 - 1)
          < 2 powi (emax binary32 + 1)" .
  from round_to_upper[OF assms(1) this, of s] show ?thesis
    by (simp add: power_int_minus_divide)
qed

lemma numeric_cast_float_bounds:
  assumes "n < 4294967296"
  shows "\<exists>r. numeric_cast_float n = Finite False r \<and>
             of_nat n * (16777215 / 16777216) \<le> r \<and> r \<le> of_nat n * (16777217 / 16777216)"
proof (cases "n = 0")
  case True
  then show ?thesis by (simp add: numeric_cast_float_def round_to_zero)
next
  case False
  then have n1: "(1::rat) \<le> of_nat n" by simp
  have "(2::rat) powi (qmin binary32 + int (prec binary32) - 1) \<le> 1"
    by (simp add: power_int_minus_divide)
  from this n1 have lo: "(2::rat) powi (qmin binary32 + int (prec binary32) - 1) \<le> of_nat n"
    by (rule order_trans)
  have "(of_nat n :: rat) \<le> 4294967296" using assms by simp
  then have "(of_nat n :: rat) * (1 + 2 powi (- int (prec binary32)))
               \<le> 4294967296 * (1 + 2 powi (- int (prec binary32)))"
    by (intro mult_right_mono) simp_all
  also have "\<dots> < 2 powi (emax binary32 + 1)"
    by (simp add: power_int_minus_divide)
  finally have hi: "(of_nat n :: rat) * (1 + 2 powi (- int (prec binary32)))
                      < 2 powi (emax binary32 + 1)" .
  from round_to_rel[OF lo hi, of False] show ?thesis
    by (simp add: numeric_cast_float_def power_int_minus_divide)
qed

lemma cast_floor_ok:
  assumes "0 \<le> r" "r < 4294967296"
  shows "\<exists>k. numeric_cast_uint (ffloor (Finite False r)) = Inr k"
proof -
  define k where "k = \<lfloor>r\<rfloor>"
  from assms(1) have z: "0 \<le> k" unfolding k_def by simp
  from assms(2) have "r < of_int 4294967296" by simp
  then have u: "k < 4294967296" unfolding k_def by (simp only: floor_less_iff)
  have f: "ffloor (Finite False r) = (if k = 0 then Finite False 0 else Finite (k < 0) (of_int \<bar>k\<bar>))"
    by (simp add: valof_def Let_def k_def)
  from z u show ?thesis unfolding f
    by (simp add: numeric_cast_uint_def valof_def)
qed

lemma numeric_cast_uint_bound: "numeric_cast_uint a = Inr k \<Longrightarrow> k < 4294967296"
proof (cases a)
  case (Finite s q)
  assume "numeric_cast_uint a = Inr k"
  with Finite have k: "k = nat \<lfloor>q\<rfloor>" and q: "- 1 < valof s q" "valof s q < 4294967296"
    by (simp_all add: numeric_cast_uint_def split: if_splits)
  show ?thesis
  proof (cases s)
    case True
    with q have "q < 1" by (simp add: valof_def)
    then have "\<lfloor>q\<rfloor> \<le> 0" by (simp add: floor_le_iff)
    with k show ?thesis by simp
  next
    case False
    with q have "q < of_int 4294967296" by (simp add: valof_def)
    then have "\<lfloor>q\<rfloor> < 4294967296" by (simp only: floor_less_iff)
    then have "nat \<lfloor>q\<rfloor> < 4294967296" by linarith
    with k show ?thesis by (simp only:)
  qed
qed (simp_all add: numeric_cast_uint_def)

section \<open>The distance is the Euclidean distance\<close>

text \<open>
  The integer square root is the floor of the square root, so the rounded square
  root of a double is within half a unit in the last place; the square of a
  single-precision value is exact in double precision. The distance of the
  nearest-neighbour branch is therefore the square root of the sum of the squares of
  the two single-precision differences, up to the rounding of the sum and of the
  root.
\<close>

lemma isqrt_correct:
  "0 \<le> n \<Longrightarrow> isqrt n * isqrt n \<le> n \<and> n < (isqrt n + 1) * (isqrt n + 1)"
proof (induction n rule: isqrt.induct)
  case (1 n)
  show ?case
  proof (cases "n < 2")
    case True
    with 1(2) have "n = 0 \<or> n = 1" by linarith
    then show ?thesis by (subst (1 2 3 4) isqrt.simps) auto
  next
    case False
    define s where "s = isqrt (n div 4)"
    from False 1(2) have "0 \<le> n div 4" by simp
    from 1(1)[OF False this] have ih: "s * s \<le> n div 4" "n div 4 < (s + 1) * (s + 1)"
      unfolding s_def by simp_all
    have n4: "4 * (n div 4) \<le> n" "n \<le> 4 * (n div 4) + 3"
      by presburger+
    have lo: "(2 * s) * (2 * s) \<le> n"
    proof -
      have "(2 * s) * (2 * s) = 4 * (s * s)" by simp
      with ih(1) n4(1) show ?thesis by linarith
    qed
    have hi: "n < (2 * s + 2) * (2 * s + 2)"
    proof -
      have "(2 * s + 2) * (2 * s + 2) = 4 * ((s + 1) * (s + 1))" by (simp add: algebra_simps)
      moreover from ih(2) have "n div 4 + 1 \<le> (s + 1) * (s + 1)" by simp
      ultimately show ?thesis using n4(2) by linarith
    qed
    have e: "isqrt n = (if (2 * s + 1) * (2 * s + 1) \<le> n then 2 * s + 1 else 2 * s)"
      using False by (subst isqrt.simps) (simp add: Let_def s_def)
    show ?thesis
    proof (cases "(2 * s + 1) * (2 * s + 1) \<le> n")
      case True
      with e have "isqrt n = 2 * s + 1" by simp
      with True hi show ?thesis by (simp add: algebra_simps)
    next
      case False
      with e have "isqrt n = 2 * s" by simp
      with False lo show ?thesis by (simp add: algebra_simps)
    qed
  qed
qed


lemma round_sqrt_square:
  assumes "1 / 2 ^ 600 \<le> q"
  shows "\<exists>r. round_sqrt binary64 q = Finite False r \<and> 0 \<le> r \<and>
             q * (1 - 1 / 2 ^ 50) \<le> r * r \<and> r * r \<le> q * (1 + 1 / 2 ^ 50)"
proof -
  have "(0::rat) < 1 / 2 ^ 600" by simp
  from this assms have q0: "0 < q" by (rule less_le_trans)
  define d where "d = ilog2 q div 2"
  define e where "e = d - 52"
  define t where "t = q / 4 powi e"
  define m where "m = isqrt \<lfloor>t\<rfloor>"
  define h :: rat where "h = (of_int m + 1/2) * (of_int m + 1/2)"
  define k where "k = (if t < h then m else if h < t then m + 1
                       else if even m then m else m + 1)"
  have "(2::rat) powi (- 600) \<le> q" using assms by (simp add: power_int_minus_divide)
  from ilog2_ge[OF q0 this] have "- 300 \<le> d" unfolding d_def by linarith
  then have emax: "max (ilog2 q div 2 - (int (prec binary64) - 1)) (qmin binary64) = e"
    unfolding e_def d_def by simp
  have rs: "round_sqrt binary64 q = Finite False (of_int k * 2 powi e)"
    unfolding round_sqrt_def emax Let_def k_def h_def m_def t_def by (rule refl)
  have p4: "(0::rat) < 4 powi e" by simp
  have four: "(4::rat) powi i = 2 powi (2 * i)" for i
  proof -
    have "(4::rat) powi i = (2 powi 2) powi i" by simp
    also have "\<dots> = 2 powi (2 * i)" by (rule power_int_mult[symmetric])
    finally show ?thesis .
  qed
  have t104: "2 ^ 104 \<le> t"
  proof -
    have "2 * d \<le> ilog2 q" unfolding d_def by linarith
    then have "(2::rat) powi (2 * d) \<le> 2 powi ilog2 q"
      by (intro power_int_increasing) simp_all
    also have "\<dots> \<le> q" by (rule ilog2_bounds(1)[OF q0])
    finally have "(4::rat) powi d \<le> q" unfolding four .
    then have "(4::rat) powi d / 4 powi e \<le> t"
      unfolding t_def using p4 by (simp add: divide_right_mono)
    moreover have "(4::rat) powi d / 4 powi e = 4 powi (d - e)"
      by (simp add: power_int_diff)
    moreover have "(4::rat) powi (d - e) = 2 ^ 104"
      unfolding e_def four by simp
    ultimately show ?thesis by simp
  qed
  then have t0: "0 \<le> t" by (rule order_trans[rotated]) simp
  then have f0: "0 \<le> \<lfloor>t\<rfloor>" by simp
  from isqrt_nonneg[OF f0] have m0: "0 \<le> m" unfolding m_def .
  from isqrt_correct[OF f0] have mm: "m * m \<le> \<lfloor>t\<rfloor>" "\<lfloor>t\<rfloor> < (m + 1) * (m + 1)"
    unfolding m_def by simp_all
  have lo: "of_int m * of_int m \<le> t"
  proof -
    from mm(1) have "(of_int (m * m) :: rat) \<le> of_int \<lfloor>t\<rfloor>" by (simp only: of_int_le_iff)
    also have "\<dots> \<le> t" by (rule of_int_floor_le)
    finally show ?thesis by simp
  qed
  have hi: "t < (of_int m + 1) * (of_int m + 1)"
  proof -
    from mm(2) have "t < of_int ((m + 1) * (m + 1))" by (simp only: floor_less_iff)
    then show ?thesis by simp
  qed
  have mr: "(0::rat) \<le> of_int m" using m0 by simp
  have k0: "0 \<le> k" using m0 by (simp add: k_def)
  have hh: "h = of_int m * of_int m + of_int m + 1/4"
    unfolding h_def by (simp add: algebra_simps)
  have kk: "of_int k * of_int k - of_int k \<le> t \<and> t \<le> of_int k * of_int k + of_int k + 1/4"
  proof (cases "k = m")
    case True
    then have "\<not> h < t \<or> t = h" unfolding k_def by (auto split: if_splits)
    then have "t \<le> h" by auto
    with lo mr show ?thesis unfolding True hh by (intro conjI) linarith+
  next
    case False
    then have km: "k = m + 1" and "\<not> t < h" unfolding k_def by (auto split: if_splits)
    then have a: "h \<le> t" by simp
    have ok: "(of_int k :: rat) = of_int m + 1" using km by simp
    have e2: "(of_int m + 1) * (of_int m + 1) = of_int m * of_int m + 2 * of_int m + (1::rat)"
      by (simp add: algebra_simps)
    from a hi mr show ?thesis unfolding ok e2 hh by (intro conjI) linarith+
  qed
  have K: "of_int k + 1/4 \<le> t / 2 ^ 50"
  proof (cases "k \<le> 2 ^ 53")
    case True
    then have "(of_int k :: rat) \<le> of_int (2 ^ 53)" by (simp only: of_int_le_iff)
    then have "(of_int k :: rat) + 1/4 \<le> 2 ^ 104 / 2 ^ 50" by simp
    also have "\<dots> \<le> t / 2 ^ 50" using t104 by (simp add: divide_right_mono)
    finally show ?thesis .
  next
    case False
    then have "2 ^ 53 + 1 \<le> k" by simp
    then have "(of_int (2 ^ 53 + 1) :: rat) \<le> of_int k" by (simp only: of_int_le_iff)
    then have k53: "(2 ^ 53 :: rat) \<le> of_int k - 1" by simp
    have kr: "(0::rat) \<le> of_int k" using k0 by simp
    from mult_left_mono[OF k53 kr] have "of_int k * 2 ^ 53 \<le> of_int k * of_int k - (of_int k :: rat)"
      by (simp add: algebra_simps)
    with kk have "of_int k * 2 ^ 53 \<le> t" by linarith
    then have "of_int k * 2 ^ 53 / 2 ^ 50 \<le> t / 2 ^ 50" by (simp add: divide_right_mono)
    moreover have "of_int k * 2 ^ 53 / 2 ^ 50 = (8 :: rat) * of_int k" by simp
    moreover have "(of_int k :: rat) + 1/4 \<le> 8 * of_int k"
    proof -
      have "(0::rat) \<le> 2 ^ 53" by simp
      with k53 show ?thesis by linarith
    qed
    ultimately show ?thesis by linarith
  qed
  let ?r = "of_int k * 2 powi e :: rat"
  have sq: "?r * ?r = (of_int k * of_int k) * 4 powi e"
    unfolding four by (simp add: power_int_add[symmetric] algebra_simps flip: mult_2)
  have q: "q = t * 4 powi e" unfolding t_def using p4 by simp
  have "t * (1 - 1 / 2 ^ 50) \<le> of_int k * of_int k"
    using kk K by (simp add: algebra_simps)
  then have "t * (1 - 1 / 2 ^ 50) * 4 powi e \<le> (of_int k * of_int k) * 4 powi e"
    using p4 by (simp only: mult_le_cancel_right_pos)
  then have A: "q * (1 - 1 / 2 ^ 50) \<le> ?r * ?r"
    unfolding sq q by (simp only: mult.assoc mult.commute mult.left_commute)
  have "of_int k * of_int k \<le> t * (1 + 1 / 2 ^ 50)"
    using kk K by (simp add: algebra_simps)
  then have "(of_int k * of_int k) * 4 powi e \<le> t * (1 + 1 / 2 ^ 50) * 4 powi e"
    using p4 by (simp only: mult_le_cancel_right_pos)
  then have B: "?r * ?r \<le> q * (1 + 1 / 2 ^ 50)"
    unfolding sq q by (simp only: mult.assoc mult.commute mult.left_commute)
  have "0 \<le> ?r" using k0 by simp
  with rs A B show ?thesis by blast
qed


lemma float32_repr:
  assumes "is_float binary32 (Finite s a)"
  shows "\<exists>m e. a = of_int m * 2 powi e \<and> 0 \<le> m \<and> m < 2 ^ 24 \<and> - 149 \<le> e \<and> a < 2 powi 128"
proof -
  from assms have a0: "0 \<le> a" and r: "round_to binary32 s a = Finite s a"
    by (simp_all add: is_float_def)
  from round_to_cases[OF a0, of binary32 s] r show ?thesis
    by auto
qed

lemma pow2_exact:
  assumes "is_float binary32 (Finite s a)"
  shows "pow2 (Finite s a) = Finite False (a * a)"
    and "a * a < 2 ^ 256" and "a \<noteq> 0 \<Longrightarrow> 1 / 2 ^ 298 \<le> a * a"
proof -
  from float32_repr[OF assms] obtain m e where
    a: "a = of_int m * 2 powi e" and m: "0 \<le> m" "m < 2 ^ 24" and e: "- 149 \<le> e"
    and u: "a < 2 powi 128"
    by blast
  from assms have a0: "0 \<le> a" by (simp add: is_float_def)
  have "a * a < 2 powi 128 * 2 powi 128"
    using u a0 by (intro mult_strict_mono) simp_all
  then show aa: "a * a < 2 ^ 256" by simp
  have sq: "a * a = of_int (m * m) * 2 powi (2 * e)"
    unfolding a by (simp add: power_int_add[symmetric] algebra_simps flip: mult_2)
  have mm: "m * m < 2 ^ 53"
  proof -
    from m have "m * m \<le> (2 ^ 24 - 1) * (2 ^ 24 - 1)"
      by (intro mult_mono) simp_all
    then show ?thesis by simp
  qed
  have "round_to binary64 False (of_int (m * m) * 2 powi (2 * e)) =
          Finite False (of_int (m * m) * 2 powi (2 * e))"
  proof (rule round_exact)
    show "0 \<le> m * m" using m(1) by simp
    show "m * m < 2 ^ prec binary64" using mm by simp
    show "qmin binary64 \<le> 2 * e" using e by simp
    show "of_int (m * m) * 2 powi (2 * e) < (2::rat) powi (emax binary64 + 1)"
      using aa unfolding sq[symmetric] by simp
  qed
  then show "pow2 (Finite s a) = Finite False (a * a)"
    unfolding sq[symmetric] by (simp add: pow2_def)
  show "1 / 2 ^ 298 \<le> a * a" if "a \<noteq> 0"
  proof -
    from that a m(1) have "1 \<le> m" by (cases "m = 0") simp_all
    then have "(1::rat) \<le> of_int m" by simp
    then have "1 * 2 powi e \<le> of_int m * (2::rat) powi e"
      by (intro mult_right_mono) simp_all
    then have g: "2 powi e \<le> a" unfolding a by simp
    have "(2::rat) powi (- 149) \<le> 2 powi e"
      using e by (intro power_int_increasing) simp_all
    from this g have l: "2 powi (- 149) \<le> a" by (rule order_trans)
    have "(2::rat) powi (- 149) * 2 powi (- 149) \<le> a * a"
      using l by (intro mult_mono) simp_all
    then show ?thesis by (simp add: power_int_minus_divide)
  qed
qed

lemma distance_euclidean:
  assumes a: "fsub binary32 fix (numeric_cast_float x) = Finite sx dx"
    and b: "fsub binary32 fiy (numeric_cast_float y) = Finite sy dy"
    and fa: "is_float binary32 (Finite sx dx)" and fb: "is_float binary32 (Finite sy dy)"
  shows "\<exists>r. distance fix fiy x y = Finite False r \<and> 0 \<le> r \<and>
             (dx * dx + dy * dy) * (1 - 1 / 2 ^ 49) \<le> r * r \<and>
             r * r \<le> (dx * dx + dy * dy) * (1 + 1 / 2 ^ 49)"
proof -
  define S where "S = dx * dx + dy * dy"
  have A0: "0 \<le> dx * dx" and B0: "0 \<le> dy * dy" by simp_all
  then have S0: "0 \<le> S" unfolding S_def by simp
  have d: "distance fix fiy x y =
             fsqrt binary64 (fadd binary64 (Finite False (dx * dx)) (Finite False (dy * dy)))"
    unfolding distance_def a b pow2_exact(1)[OF fa] pow2_exact(1)[OF fb] by (rule refl)
  show ?thesis
  proof (cases "S = 0")
    case True
    then have "distance fix fiy x y = Finite False 0"
      unfolding d by (simp add: valof_def S_def)
    with True show ?thesis unfolding S_def by simp
  next
    case False
    with S0 have Sp: "0 < S" by simp
    have Slo: "1 / 2 ^ 298 \<le> S"
    proof (cases "dx = 0")
      case True
      with False have "dy \<noteq> 0" unfolding S_def by auto
      from pow2_exact(3)[OF fb this] A0 show ?thesis unfolding S_def by linarith
    next
      case False
      from pow2_exact(3)[OF fa this] B0 show ?thesis unfolding S_def by linarith
    qed
    have Shi: "S < 2 ^ 257"
      using pow2_exact(2)[OF fa] pow2_exact(2)[OF fb] unfolding S_def by simp
    have add: "fadd binary64 (Finite False (dx * dx)) (Finite False (dy * dy)) =
                 round_to binary64 False S"
      using False Sp by (auto simp: valof_def Let_def S_def)
    have lo: "(2::rat) powi (qmin binary64 + int (prec binary64) - 1) \<le> S"
    proof -
      have "(2::rat) powi (qmin binary64 + int (prec binary64) - 1) \<le> 1 / 2 ^ 298"
        by (simp add: power_int_minus_divide)
      then show ?thesis using Slo by (rule order_trans)
    qed
    have hi: "S * (1 + 2 powi (- int (prec binary64))) < 2 powi (emax binary64 + 1)"
    proof -
      have "S * (1 + 2 powi (- int (prec binary64))) \<le> 2 ^ 257 * (1 + 2 powi (- int (prec binary64)))"
        using Shi by (intro mult_right_mono) simp_all
      also have "\<dots> < 2 powi (emax binary64 + 1)"
        by (simp add: power_int_minus_divide)
      finally show ?thesis .
    qed
    from round_to_rel[OF lo hi, of False] obtain S' where
      S': "round_to binary64 False S = Finite False S'"
        "S * (1 - 1 / 2 ^ 53) \<le> S'" "S' \<le> S * (1 + 1 / 2 ^ 53)"
      by (auto simp: power_int_minus_divide)
    have "(1::rat) / 2 ^ 600 \<le> 1 / 2 ^ 298 * (1 - 1 / 2 ^ 53)" by simp
    also have "\<dots> \<le> S * (1 - 1 / 2 ^ 53)"
      using Slo by (intro mult_right_mono) simp_all
    also have "\<dots> \<le> S'" by (rule S'(2))
    finally have S'lo: "1 / 2 ^ 600 \<le> S'" .
    have "(0::rat) < 1 / 2 ^ 600" by simp
    from this S'lo have S'p: "0 < S'" by (rule less_le_trans)
    from round_sqrt_square[OF S'lo] obtain r where
      r: "round_sqrt binary64 S' = Finite False r" "0 \<le> r"
        "S' * (1 - 1 / 2 ^ 50) \<le> r * r" "r * r \<le> S' * (1 + 1 / 2 ^ 50)"
      by blast
    have dr: "distance fix fiy x y = Finite False r"
      unfolding d add S'(1) using S'p r(1) by simp
    have "S * (1 - 1 / 2 ^ 49) \<le> S * ((1 - 1 / 2 ^ 53) * (1 - 1 / 2 ^ 50))"
      using S0 by (intro mult_left_mono) simp_all
    also have "\<dots> = S * (1 - 1 / 2 ^ 53) * (1 - 1 / 2 ^ 50)" by simp
    also have "\<dots> \<le> S' * (1 - 1 / 2 ^ 50)"
      using S'(2) by (intro mult_right_mono) simp_all
    also have "\<dots> \<le> r * r" by (rule r(3))
    finally have L: "S * (1 - 1 / 2 ^ 49) \<le> r * r" .
    have "r * r \<le> S' * (1 + 1 / 2 ^ 50)" by (rule r(4))
    also have "\<dots> \<le> S * (1 + 1 / 2 ^ 53) * (1 + 1 / 2 ^ 50)"
      using S'(3) by (intro mult_right_mono) simp_all
    also have "\<dots> = S * ((1 + 1 / 2 ^ 53) * (1 + 1 / 2 ^ 50))" by simp
    also have "\<dots> \<le> S * (1 + 1 / 2 ^ 49)"
      using S0 by (intro mult_left_mono) simp_all
    finally have U: "r * r \<le> S * (1 + 1 / 2 ^ 49)" .
    from dr r(2) L U show ?thesis unfolding S_def by blast
  qed
qed


lemma sqrt_of_square_bounds:
  fixes r S :: rat
  assumes r0: "0 \<le> r" and S0: "0 \<le> S"
    and lo: "S * (1 - 1 / 2 ^ 49) \<le> r * r" and hi: "r * r \<le> S * (1 + 1 / 2 ^ 49)"
  shows "\<bar>real_of_rat r - sqrt (real_of_rat S)\<bar> \<le> sqrt (real_of_rat S) / 2 ^ 49"
proof -
  define R where "R = real_of_rat r"
  define T where "T = real_of_rat S"
  define s where "s = sqrt T"
  have R0: "0 \<le> R" using r0 by (simp add: R_def)
  have T0: "0 \<le> T" using S0 by (simp add: T_def)
  have s0: "0 \<le> s" using T0 by (simp add: s_def)
  have ss: "s * s = T" using T0 by (simp add: s_def)
  from lo have "real_of_rat (S * (1 - 1 / 2 ^ 49)) \<le> real_of_rat (r * r)"
    by (simp only: of_rat_less_eq)
  then have lo': "T * (1 - 1 / 2 ^ 49) \<le> R * R"
    by (simp add: of_rat_mult of_rat_diff of_rat_divide of_rat_power R_def T_def)
  from hi have "real_of_rat (r * r) \<le> real_of_rat (S * (1 + 1 / 2 ^ 49))"
    by (simp only: of_rat_less_eq)
  then have hi': "R * R \<le> T * (1 + 1 / 2 ^ 49)"
    by (simp add: of_rat_mult of_rat_add of_rat_divide of_rat_power R_def T_def)
  have up: "R \<le> s * (1 + 1 / 2 ^ 49)"
  proof (rule power2_le_imp_le)
    have "T * (1 + 1 / 2 ^ 49) \<le> T * ((1 + 1 / 2 ^ 49) * (1 + 1 / 2 ^ 49))"
      using T0 by (intro mult_left_mono) simp_all
    also have "\<dots> = (s * (1 + 1 / 2 ^ 49))\<^sup>2"
      unfolding ss[symmetric] power2_eq_square by (simp only: ac_simps)
    finally have "T * (1 + 1 / 2 ^ 49) \<le> (s * (1 + 1 / 2 ^ 49))\<^sup>2" .
    with hi' show "R\<^sup>2 \<le> (s * (1 + 1 / 2 ^ 49))\<^sup>2"
      unfolding power2_eq_square[of R] by (rule order_trans)
    show "0 \<le> s * (1 + 1 / 2 ^ 49)" using s0 by simp
  qed
  have dn: "s * (1 - 1 / 2 ^ 49) \<le> R"
  proof (rule power2_le_imp_le)
    have "(s * (1 - 1 / 2 ^ 49))\<^sup>2 = T * ((1 - 1 / 2 ^ 49) * (1 - 1 / 2 ^ 49))"
      unfolding ss[symmetric] power2_eq_square by (simp only: ac_simps)
    also have "\<dots> \<le> T * (1 - 1 / 2 ^ 49)"
      using T0 by (intro mult_left_mono) simp_all
    finally have "(s * (1 - 1 / 2 ^ 49))\<^sup>2 \<le> T * (1 - 1 / 2 ^ 49)" .
    from this lo' show "(s * (1 - 1 / 2 ^ 49))\<^sup>2 \<le> R\<^sup>2"
      unfolding power2_eq_square[of R] by (rule order_trans)
    show "0 \<le> R" by (rule R0)
  qed
  from up have u: "R \<le> s + s / 2 ^ 49"
    by (simp only: distrib_left mult_1_right times_divide_eq_right)
  from dn have l: "s - s / 2 ^ 49 \<le> R"
    by (simp only: right_diff_distrib mult_1_right times_divide_eq_right)
  define w where "w = s / 2 ^ 49"
  from u l have "\<bar>R - s\<bar> \<le> w" unfolding w_def[symmetric] by linarith
  then have "\<bar>R - s\<bar> \<le> s / 2 ^ 49" unfolding w_def .
  then show ?thesis unfolding R_def s_def T_def .
qed

text \<open>
  In a run, the floored coordinate is the converted texel itself, so its differences
  to \<open>(x0, y0)\<close> are zero; the differences to any other texel are finite
  single-precision values, and the distance to it is their Euclidean norm.
\<close>

lemma fsub_texel_finite:
  assumes k: "k < 4294967296" and j: "j < 4294967296"
  shows "\<exists>t d. fsub binary32 (Finite s (of_nat k)) (numeric_cast_float j) = Finite t d \<and>
               is_float binary32 (Finite t d)"
proof -
  from numeric_cast_float_bounds[OF j] obtain v where
    v: "numeric_cast_float j = Finite False v" "of_nat j * (16777215 / 16777216) \<le> v"
       "v \<le> of_nat j * (16777217 / 16777216)"
    by blast
  have "(0::rat) \<le> of_nat j * (16777215 / 16777216)" by simp
  from this v(2) have v0: "0 \<le> v" by (rule order_trans)
  have "(of_nat j :: rat) \<le> 4294967296" using j by simp
  then have "(of_nat j :: rat) * (16777217 / 16777216) \<le> 4294967296 * (16777217 / 16777216)"
    by (intro mult_right_mono) simp_all
  with v(3) have vu: "v \<le> 4294967296 * (16777217 / 16777216)" by (rule order_trans)
  have ku: "(of_nat k :: rat) \<le> 4294967296" using k by simp
  have k0: "(0::rat) \<le> of_nat k" by simp
  define w where "w = valof s (of_nat k) + valof True v"
  have f: "fsub binary32 (Finite s (of_nat k)) (numeric_cast_float j) =
             (if w = 0 then Finite (s \<and> True) 0 else round_to binary32 (w < 0) \<bar>w\<bar>)"
    unfolding fsub_def v(1) w_def by (simp add: Let_def)
  show ?thesis
  proof (cases "w = 0")
    case True
    then show ?thesis unfolding f by (simp add: is_float_def round_to_zero)
  next
    case False
    have "\<bar>w\<bar> \<le> of_nat k + v"
      unfolding w_def valof_def using v0 k0 by (cases s) simp_all
    also have "\<dots> \<le> 4294967296 + 4294967296 * (16777217 / 16777216)"
      using ku vu by (rule add_mono)
    also have "\<dots> \<le> 2 ^ 100" by simp
    finally have wu: "\<bar>w\<bar> \<le> 2 ^ 100" .
    have w0: "0 \<le> \<bar>w\<bar>" by simp
    from round32_upper[OF w0 wu, of "w < 0"] obtain d where
      d: "round_to binary32 (w < 0) \<bar>w\<bar> = Finite (w < 0) d" by blast
    have "is_float binary32 (round_to binary32 (w < 0) \<bar>w\<bar>)"
      by (rule round_to_is_float) simp_all
    with d False show ?thesis unfolding f by auto
  qed
qed

lemma texel_floor:
  assumes "texel i j x = Inr k"
  shows "\<exists>s. ffloor (project i j x) = Finite s (of_nat k)" and "k < 4294967296"
proof -
  from assms have c: "numeric_cast_uint (ffloor (project i j x)) = Inr k"
    by (simp add: texel_def)
  from floor_cast[OF project_is_float c]
  show "\<exists>s. ffloor (project i j x) = Finite s (of_nat k)" by blast
  from numeric_cast_uint_bound[OF c] show "k < 4294967296" .
qed

lemma next_texel_uint: "next_texel d k < 4294967296"
  by (simp add: next_texel_def uint_add_def min_less_iff_disj)

lemma distance_next_texel:
  assumes tx: "texel i j x = Inr x0" and ty: "texel i' j' y = Inr y0"
    and that: "x1 < 4294967296" "y1 < 4294967296"
  shows "\<exists>sx dx sy dy r.
           fsub binary32 (ffloor (project i j x)) (numeric_cast_float x1) = Finite sx dx \<and>
           fsub binary32 (ffloor (project i' j' y)) (numeric_cast_float y1) = Finite sy dy \<and>
           distance (ffloor (project i j x)) (ffloor (project i' j' y)) x1 y1 = Finite False r \<and>
           0 \<le> r \<and>
           \<bar>real_of_rat r - sqrt (real_of_rat (dx * dx + dy * dy))\<bar>
             \<le> sqrt (real_of_rat (dx * dx + dy * dy)) / 2 ^ 49"
proof -
  from texel_floor[OF tx] obtain s where fx: "ffloor (project i j x) = Finite s (of_nat x0)"
    and bx: "x0 < 4294967296" by blast
  from texel_floor[OF ty] obtain t where fy: "ffloor (project i' j' y) = Finite t (of_nat y0)"
    and by': "y0 < 4294967296" by blast
  from fsub_texel_finite[OF bx that(1), of s] obtain sx dx where
    a: "fsub binary32 (ffloor (project i j x)) (numeric_cast_float x1) = Finite sx dx"
    and fa: "is_float binary32 (Finite sx dx)"
    unfolding fx by blast
  from fsub_texel_finite[OF by' that(2), of t] obtain sy dy where
    b: "fsub binary32 (ffloor (project i' j' y)) (numeric_cast_float y1) = Finite sy dy"
    and fb: "is_float binary32 (Finite sy dy)"
    unfolding fy by blast
  from distance_euclidean[OF a b fa fb] obtain r where
    r: "distance (ffloor (project i j x)) (ffloor (project i' j' y)) x1 y1 = Finite False r"
      "0 \<le> r" "(dx * dx + dy * dy) * (1 - 1 / 2 ^ 49) \<le> r * r"
      "r * r \<le> (dx * dx + dy * dy) * (1 + 1 / 2 ^ 49)"
    by blast
  have "0 \<le> dx * dx + dy * dy" by simp
  from sqrt_of_square_bounds[OF r(2) this r(3,4)] a b r(1,2) show ?thesis by blast
qed


lemma fsub_texel_zero:
  assumes "texel i j x = Inr k"
  shows "\<exists>s. fsub binary32 (ffloor (project i j x)) (numeric_cast_float k) = Finite s 0"
proof -
  from assms have c: "numeric_cast_uint (ffloor (project i j x)) = Inr k"
    by (simp add: texel_def)
  from floor_cast[OF project_is_float c] obtain s where
    s: "ffloor (project i j x) = Finite s (of_nat k)" "s \<longrightarrow> k = 0"
       "numeric_cast_float k = Finite False (of_nat k)"
    by blast
  have "fsub binary32 (ffloor (project i j x)) (numeric_cast_float k) = Finite s 0"
    unfolding s(1) s(3) using s(2) by (cases s) (simp_all add: fsub_def valof_def)
  then show ?thesis ..
qed

section \<open>The nearest-neighbour branch always takes the floored texel\<close>

lemma interpolate_nearest:
  assumes "is_float binary32 a" "numeric_cast_uint (ffloor a) = Inr x0"
    and "is_float binary32 b" "numeric_cast_uint (ffloor b) = Inr y0"
  shows "interpolate inp sh l NearestNeighbor n c (ffloor a) (ffloor b) xw yw x0 y0 x1 y1 =
         (dec_Get (dec_at inp (GetIndex l sh n c y0 x0)), dec_at inp (GetIndex l sh n c y0 x0))"
  using nearest_first(2)[OF assms] by (simp add: interpolate_def Let_def)

lemma scale_is_float:
  "is_float binary32 (fdiv binary32 (numeric_cast_float i) (numeric_cast_float j))"
  by (intro fdiv_is_float numeric_cast_float_is_float) simp

lemma ResizeX_nearest:
  assumes "is_float binary32 b" "numeric_cast_uint (ffloor b) = Inr y0"
  shows "ResizeX ish osh ih iw l NearestNeighbor
           (fdiv binary32 (numeric_cast_float i) (numeric_cast_float j)) n c y (ffloor b) y0 yw =
         (\<lambda>x s. case numeric_cast_uint (ffloor (fmul binary32 (numeric_cast_float x)
                        (fdiv binary32 (numeric_cast_float i) (numeric_cast_float j)))) of
                   Inl e \<Rightarrow> Inl e
                 | Inr x0 \<Rightarrow>
                     Inr (dec_at (fst s) (GetIndex l ish n c y0 x0),
                          enc_Set (enc_at (snd s) (GetIndex l osh n c y x))
                            (dec_Get (dec_at (fst s) (GetIndex l ish n c y0 x0)))))"
proof (intro ext)
  fix x and s :: "Decoder \<times> Encoder"
  obtain inp out where s: "s = (inp, out)" by (cases s)
  let ?a = "fmul binary32 (numeric_cast_float x)
              (fdiv binary32 (numeric_cast_float i) (numeric_cast_float j))"
  have a: "is_float binary32 ?a"
    by (intro fmul_is_float scale_is_float numeric_cast_float_is_float) simp
  show "ResizeX ish osh ih iw l NearestNeighbor
           (fdiv binary32 (numeric_cast_float i) (numeric_cast_float j)) n c y (ffloor b) y0 yw x s =
        (case numeric_cast_uint (ffloor ?a) of
           Inl e \<Rightarrow> Inl e
         | Inr x0 \<Rightarrow>
             Inr (dec_at (fst s) (GetIndex l ish n c y0 x0),
                  enc_Set (enc_at (snd s) (GetIndex l osh n c y x))
                    (dec_Get (dec_at (fst s) (GetIndex l ish n c y0 x0)))))"
  proof (cases "numeric_cast_uint (ffloor ?a)")
    case (Inl e)
    then show ?thesis by (simp add: s ResizeX_unfold)
  next
    case (Inr x0)
    from interpolate_nearest[OF a Inr assms] Inr show ?thesis
      by (simp add: s ResizeX_unfold)
  qed
qed

lemma ResizeY_nearest:
  "ResizeY ish osh ih iw ow l NearestNeighbor
     (fdiv binary32 (numeric_cast_float i') (numeric_cast_float j'))
     (fdiv binary32 (numeric_cast_float i) (numeric_cast_float j)) n c =
   (\<lambda>y s. case numeric_cast_uint (ffloor (fmul binary32 (numeric_cast_float y)
                  (fdiv binary32 (numeric_cast_float i') (numeric_cast_float j')))) of
             Inl e \<Rightarrow> Inl e
           | Inr y0 \<Rightarrow>
               for_loop 0 ow (\<lambda>x s.
                 case numeric_cast_uint (ffloor (fmul binary32 (numeric_cast_float x)
                        (fdiv binary32 (numeric_cast_float i) (numeric_cast_float j)))) of
                   Inl e \<Rightarrow> Inl e
                 | Inr x0 \<Rightarrow>
                     Inr (dec_at (fst s) (GetIndex l ish n c y0 x0),
                          enc_Set (enc_at (snd s) (GetIndex l osh n c y x))
                            (dec_Get (dec_at (fst s) (GetIndex l ish n c y0 x0))))) s)"
proof (intro ext)
  fix y and s :: "Decoder \<times> Encoder"
  let ?b = "fmul binary32 (numeric_cast_float y)
              (fdiv binary32 (numeric_cast_float i') (numeric_cast_float j'))"
  have b: "is_float binary32 ?b"
    by (intro fmul_is_float scale_is_float numeric_cast_float_is_float) simp
  show "ResizeY ish osh ih iw ow l NearestNeighbor
     (fdiv binary32 (numeric_cast_float i') (numeric_cast_float j'))
     (fdiv binary32 (numeric_cast_float i) (numeric_cast_float j)) n c y s =
   (case numeric_cast_uint (ffloor ?b) of
             Inl e \<Rightarrow> Inl e
           | Inr y0 \<Rightarrow>
               for_loop 0 ow (\<lambda>x s.
                 case numeric_cast_uint (ffloor (fmul binary32 (numeric_cast_float x)
                        (fdiv binary32 (numeric_cast_float i) (numeric_cast_float j)))) of
                   Inl e \<Rightarrow> Inl e
                 | Inr x0 \<Rightarrow>
                     Inr (dec_at (fst s) (GetIndex l ish n c y0 x0),
                          enc_Set (enc_at (snd s) (GetIndex l osh n c y x))
                            (dec_Get (dec_at (fst s) (GetIndex l ish n c y0 x0))))) s)"
  proof (cases "numeric_cast_uint (ffloor ?b)")
    case (Inl e)
    then show ?thesis by (simp add: ResizeY_def)
  next
    case (Inr y0)
    then show ?thesis
      by (simp add: ResizeY_def ResizeX_nearest[OF b Inr])
  qed
qed

section \<open>Runs on small tensors\<close>

lemma texel_2_3: "texel 2 3 0 = Inr 0" "texel 2 3 1 = Inr 0" "texel 2 3 2 = Inr 1"
  by code_simp+

lemma texel_1_1: "texel 1 1 0 = Inr 0"
  by code_simp

lemma example_returns:
  "\<exists>s'. Resize inp \<lparr>GetShape = [1, 1, 2, 2]\<rparr> out \<lparr>GetShape = [1, 1, 3, 3]\<rparr> NCHW m = Inr s'"
proof (rule Resize_returns)
  fix y :: nat
  assume "y < GetShape \<lparr>GetShape = [1, 1, 3, 3]\<rparr> ! GetHeightIndex NCHW"
  then have "y = 0 \<or> y = 1 \<or> y = 2" by (simp add: numeral_nat) linarith
  then show "\<exists>y0. texel (GetShape \<lparr>GetShape = [1, 1, 2, 2]\<rparr> ! GetHeightIndex NCHW)
                 (GetShape \<lparr>GetShape = [1, 1, 3, 3]\<rparr> ! GetHeightIndex NCHW) y = Inr y0"
    by (auto simp: numeral_nat texel_2_3[unfolded numeral_nat])
next
  fix x :: nat
  assume "x < GetShape \<lparr>GetShape = [1, 1, 3, 3]\<rparr> ! GetWidthIndex NCHW"
  then have "x = 0 \<or> x = 1 \<or> x = 2" by (simp add: numeral_nat) linarith
  then show "\<exists>x0. texel (GetShape \<lparr>GetShape = [1, 1, 2, 2]\<rparr> ! GetWidthIndex NCHW)
                 (GetShape \<lparr>GetShape = [1, 1, 3, 3]\<rparr> ! GetWidthIndex NCHW) x = Inr x0"
    by (auto simp: numeral_nat texel_2_3[unfolded numeral_nat])
qed

lemma feq_imp_fle: "feq a b \<Longrightarrow> fle a b"
  by (cases a; cases b) simp_all

lemma pixelValue_nearest:
  assumes "pixelValue D ish osh l NearestNeighbor n c y x = Inr v"
  shows "\<exists>y0 x0. texel (ish ! GetHeightIndex l) (osh ! GetHeightIndex l) y = Inr y0 \<and>
           texel (ish ! GetWidthIndex l) (osh ! GetWidthIndex l) x = Inr x0 \<and>
           v = (if fle (distance (ffloor (project (ish ! GetWidthIndex l) (osh ! GetWidthIndex l) x))
                                 (ffloor (project (ish ! GetHeightIndex l) (osh ! GetHeightIndex l) y))
                                 x0 y0)
                       (distance (ffloor (project (ish ! GetWidthIndex l) (osh ! GetWidthIndex l) x))
                                 (ffloor (project (ish ! GetHeightIndex l) (osh ! GetHeightIndex l) y))
                                 (next_texel (ish ! GetWidthIndex l) x0)
                                 (next_texel (ish ! GetHeightIndex l) y0))
                then D (GetIndex l ish n c y0 x0)
                else D (GetIndex l ish n c (next_texel (ish ! GetHeightIndex l) y0)
                                           (next_texel (ish ! GetWidthIndex l) x0)))"
  using assms
  by (auto simp: pixelValue_def Let_def interpolate_def dec_Get_def dec_at_def split: sum.splits)

section \<open>The nearest-neighbour selection\<close>

text \<open>
  C1: after a run with method NearestNeighbor that returns, the element at every
  output coordinate \<open>(n, c, y, x)\<close> is one input sample, unmodified. With \<open>fix\<close>,
  \<open>fiy\<close> the floored projected coordinates, \<open>(x0, y0)\<close> their conversions and
  \<open>(x1, y1)\<close> the clamped successors, the two distances the kernel compares are
  Euclidean distances: the differences \<open>fix - x0\<close> and \<open>fiy - y0\<close> are zero and so is
  the first distance; the second distance is a non-negative double \<open>r\<close> that differs
  from the square root of \<open>dx\<^sup>2 + dy\<^sup>2\<close>, for the single-precision differences
  \<open>dx = fix - x1\<close> and \<open>dy = fiy - y1\<close>, by at most that root times \<open>2 ^ - 49\<close> (the
  rounding of the sum and of the root). The element written is the sample at
  \<open>(y0, x0)\<close> when the first distance is less than or equal to the second, and the
  sample at \<open>(y1, x1)\<close> otherwise; when the two distances are equal it is the sample
  at \<open>(y0, x0)\<close>.
\<close>

theorem Resize_nearest_selection:
  fixes inputInfo outputInfo :: TensorInfo and l :: DataLayout and x y :: nat
  defines "Hin \<equiv> GetShape inputInfo ! GetHeightIndex l"
    and "Win \<equiv> GetShape inputInfo ! GetWidthIndex l"
    and "Hout \<equiv> GetShape outputInfo ! GetHeightIndex l"
    and "Wout \<equiv> GetShape outputInfo ! GetWidthIndex l"
  defines "fix \<equiv> ffloor (project Win Wout x)"
    and "fiy \<equiv> ffloor (project Hin Hout y)"
  assumes run: "Resize inp inputInfo out outputInfo l NearestNeighbor = Inr (inp', out')"
    and ch: "GetShape inputInfo ! GetChannelsIndex l \<le> GetShape outputInfo ! GetChannelsIndex l"
    and rng: "n < GetShape inputInfo ! 0" "c < GetShape inputInfo ! GetChannelsIndex l"
      "y < Hout" "x < Wout"
  shows "\<exists>y0 x0 s0 t0 sx dx sy dy r.
           texel Hin Hout y = Inr y0 \<and> texel Win Wout x = Inr x0 \<and>
           fsub binary32 fix (numeric_cast_float x0) = Finite s0 0 \<and>
           fsub binary32 fiy (numeric_cast_float y0) = Finite t0 0 \<and>
           distance fix fiy x0 y0 = Finite False 0 \<and>
           fsub binary32 fix (numeric_cast_float (next_texel Win x0)) = Finite sx dx \<and>
           fsub binary32 fiy (numeric_cast_float (next_texel Hin y0)) = Finite sy dy \<and>
           distance fix fiy (next_texel Win x0) (next_texel Hin y0) = Finite False r \<and>
           0 \<le> r \<and>
           \<bar>real_of_rat r - sqrt (real_of_rat (dx * dx + dy * dy))\<bar>
             \<le> sqrt (real_of_rat (dx * dx + dy * dy)) / 2 ^ 49 \<and>
           enc_data out' (GetIndex l (GetShape outputInfo) n c y x) =
             (if fle (distance fix fiy x0 y0)
                     (distance fix fiy (next_texel Win x0) (next_texel Hin y0))
              then dec_data inp (GetIndex l (GetShape inputInfo) n c y0 x0)
              else dec_data inp (GetIndex l (GetShape inputInfo) n c
                                  (next_texel Hin y0) (next_texel Win x0))) \<and>
           (feq (distance fix fiy x0 y0)
                (distance fix fiy (next_texel Win x0) (next_texel Hin y0)) \<longrightarrow>
            enc_data out' (GetIndex l (GetShape outputInfo) n c y x) =
              dec_data inp (GetIndex l (GetShape inputInfo) n c y0 x0))"
proof -
  from Resize_output[OF run ch rng(1,2) rng(3,4)[unfolded Hout_def Wout_def]]
  have "pixelValue (dec_data inp) (GetShape inputInfo) (GetShape outputInfo) l NearestNeighbor
          n c y x = Inr (enc_data out' (GetIndex l (GetShape outputInfo) n c y x))" .
  from pixelValue_nearest[OF this] obtain y0 x0 where
    t: "texel Hin Hout y = Inr y0" "texel Win Wout x = Inr x0"
    and v: "enc_data out' (GetIndex l (GetShape outputInfo) n c y x) =
             (if fle (distance fix fiy x0 y0)
                     (distance fix fiy (next_texel Win x0) (next_texel Hin y0))
              then dec_data inp (GetIndex l (GetShape inputInfo) n c y0 x0)
              else dec_data inp (GetIndex l (GetShape inputInfo) n c
                                  (next_texel Hin y0) (next_texel Win x0)))"
    unfolding Hin_def Win_def Hout_def Wout_def fix_def fiy_def by blast
  have e: "enc_data out' (GetIndex l (GetShape outputInfo) n c y x) =
          dec_data inp (GetIndex l (GetShape inputInfo) n c y0 x0)"
    if "feq (distance fix fiy x0 y0) (distance fix fiy (next_texel Win x0) (next_texel Hin y0))"
    using feq_imp_fle[OF that] v by simp
  from fsub_texel_zero[OF t(2)] obtain s0 where
    zx: "fsub binary32 fix (numeric_cast_float x0) = Finite s0 0"
    unfolding fix_def by blast
  from fsub_texel_zero[OF t(1)] obtain t0 where
    zy: "fsub binary32 fiy (numeric_cast_float y0) = Finite t0 0"
    unfolding fiy_def by blast
  from t have c: "numeric_cast_uint (ffloor (project Win Wout x)) = Inr x0"
    "numeric_cast_uint (ffloor (project Hin Hout y)) = Inr y0"
    by (simp_all add: texel_def)
  from nearest_first(1)[OF project_is_float c(1) project_is_float c(2)]
  have d0: "distance fix fiy x0 y0 = Finite False 0"
    unfolding fix_def fiy_def .
  from distance_next_texel[OF t(2) t(1) next_texel_uint[of Win x0] next_texel_uint[of Hin y0]]
  obtain sx dx sy dy r where
    d1: "fsub binary32 fix (numeric_cast_float (next_texel Win x0)) = Finite sx dx"
      "fsub binary32 fiy (numeric_cast_float (next_texel Hin y0)) = Finite sy dy"
      "distance fix fiy (next_texel Win x0) (next_texel Hin y0) = Finite False r"
      "0 \<le> r"
      "\<bar>real_of_rat r - sqrt (real_of_rat (dx * dx + dy * dy))\<bar>
             \<le> sqrt (real_of_rat (dx * dx + dy * dy)) / 2 ^ 49"
    unfolding fix_def fiy_def by blast
  from t zx zy d0 d1 v e show ?thesis by blast
qed


theorem Resize_nearest_selection_witness:
  "\<exists>inp' out' y0 x0 sx dx sy dy r.
     Resize example_input \<lparr>GetShape = [1, 1, 2, 2]\<rparr> blank_output \<lparr>GetShape = [1, 1, 3, 3]\<rparr>
       NCHW NearestNeighbor = Inr (inp', out') \<and>
     texel 2 3 2 = Inr y0 \<and> texel 2 3 1 = Inr x0 \<and>
     distance (ffloor (project 2 3 1)) (ffloor (project 2 3 2)) x0 y0 = Finite False 0 \<and>
     fsub binary32 (ffloor (project 2 3 1)) (numeric_cast_float (next_texel 2 x0)) =
       Finite sx dx \<and>
     fsub binary32 (ffloor (project 2 3 2)) (numeric_cast_float (next_texel 2 y0)) =
       Finite sy dy \<and>
     distance (ffloor (project 2 3 1)) (ffloor (project 2 3 2))
       (next_texel 2 x0) (next_texel 2 y0) = Finite False r \<and>
     0 \<le> r \<and>
     \<bar>real_of_rat r - sqrt (real_of_rat (dx * dx + dy * dy))\<bar>
       \<le> sqrt (real_of_rat (dx * dx + dy * dy)) / 2 ^ 49 \<and>
     enc_data out' (GetIndex NCHW [1, 1, 3, 3] 0 0 2 1) =
       (if fle (distance (ffloor (project 2 3 1)) (ffloor (project 2 3 2)) x0 y0)
               (distance (ffloor (project 2 3 1)) (ffloor (project 2 3 2))
                  (next_texel 2 x0) (next_texel 2 y0))
        then dec_data example_input (GetIndex NCHW [1, 1, 2, 2] 0 0 y0 x0)
        else dec_data example_input (GetIndex NCHW [1, 1, 2, 2] 0 0
               (next_texel 2 y0) (next_texel 2 x0)))"
proof -
  let ?i = "\<lparr>GetShape = [1, 1, 2, 2]\<rparr>" and ?o = "\<lparr>GetShape = [1, 1, 3, 3]\<rparr>"
  obtain inp' out' where
    run: "Resize example_input ?i blank_output ?o NCHW NearestNeighbor = Inr (inp', out')"
    using example_returns by (metis surj_pair)
  have ch: "GetShape ?i ! GetChannelsIndex NCHW \<le> GetShape ?o ! GetChannelsIndex NCHW"
    by simp
  have b: "0 < GetShape ?i ! 0" "0 < GetShape ?i ! GetChannelsIndex NCHW"
    "2 < GetShape ?o ! GetHeightIndex NCHW" "1 < GetShape ?o ! GetWidthIndex NCHW"
    by simp_all
  have sh: "[1, 1, 2, 2] ! GetHeightIndex NCHW = (2::nat)"
    "[1, 1, 2, 2] ! GetWidthIndex NCHW = (2::nat)"
    "[1, 1, 3, 3] ! GetHeightIndex NCHW = (3::nat)"
    "[1, 1, 3, 3] ! GetWidthIndex NCHW = (3::nat)"
    "GetShape ?i = [1, 1, 2, 2]" "GetShape ?o = [1, 1, 3, 3]"
    by simp_all
  from Resize_nearest_selection[OF run ch b] run show ?thesis
    unfolding sh by blast
qed

text \<open>
  C2: the nearest-neighbour method is the same function as sampling at the floored
  coordinate: for every reader, writer, pair of shapes and layout the two kernels
  give the same result (the same exception, or the same final reader and writer).
  The reason is that a floored coordinate that converts to an unsigned integer
  converts back to itself, so the distance from \<open>(fix, fiy)\<close> to \<open>(x0, y0)\<close> is exactly
  zero and is less than or equal to the distance to any other texel: the branch
  always selects \<open>(x0, y0)\<close>.
\<close>

theorem Resize_nearest_is_floor_sample:
  "Resize inp inputInfo out outputInfo l NearestNeighbor =
     NearestFloor inp inputInfo out outputInfo l \<and>
   (texel inW outW x = Inr x0 \<and> texel inH outH y = Inr y0 \<longrightarrow>
      distance (ffloor (project inW outW x)) (ffloor (project inH outH y)) x0 y0 = Finite False 0 \<and>
      fle (distance (ffloor (project inW outW x)) (ffloor (project inH outH y)) x0 y0)
          (distance (ffloor (project inW outW x)) (ffloor (project inH outH y)) x1 y1))"
proof (intro conjI impI)
  show "Resize inp inputInfo out outputInfo l NearestNeighbor =
        NearestFloor inp inputInfo out outputInfo l"
    unfolding Resize_def NearestFloor_def Let_def ResizeY_nearest by (rule refl)
next
  assume "texel inW outW x = Inr x0 \<and> texel inH outH y = Inr y0"
  then have t: "numeric_cast_uint (ffloor (project inW outW x)) = Inr x0"
    "numeric_cast_uint (ffloor (project inH outH y)) = Inr y0"
    by (simp_all add: texel_def)
  show "distance (ffloor (project inW outW x)) (ffloor (project inH outH y)) x0 y0 = Finite False 0"
    by (rule nearest_first(1)[OF project_is_float t(1) project_is_float t(2)])
  show "fle (distance (ffloor (project inW outW x)) (ffloor (project inH outH y)) x0 y0)
          (distance (ffloor (project inW outW x)) (ffloor (project inH outH y)) x1 y1)"
    by (rule nearest_first(2)[OF project_is_float t(1) project_is_float t(2)])
qed

theorem Resize_nearest_is_floor_sample_witness:
  "Resize example_input \<lparr>GetShape = [1, 1, 2, 2]\<rparr> blank_output \<lparr>GetShape = [1, 1, 3, 3]\<rparr>
     NCHW NearestNeighbor =
   NearestFloor example_input \<lparr>GetShape = [1, 1, 2, 2]\<rparr> blank_output
     \<lparr>GetShape = [1, 1, 3, 3]\<rparr> NCHW \<and>
   texel 2 3 1 = Inr 0 \<and> texel 2 3 2 = Inr 1 \<and>
   distance (ffloor (project 2 3 1)) (ffloor (project 2 3 2)) 0 1 = Finite False 0 \<and>
   fle (distance (ffloor (project 2 3 1)) (ffloor (project 2 3 2)) 0 1)
       (distance (ffloor (project 2 3 1)) (ffloor (project 2 3 2)) 1 1)"
proof -
  have t: "texel 2 3 1 = Inr 0 \<and> texel 2 3 2 = Inr 1"
    using texel_2_3 by simp
  from Resize_nearest_is_floor_sample[of example_input "\<lparr>GetShape = [1, 1, 2, 2]\<rparr>"
      blank_output "\<lparr>GetShape = [1, 1, 3, 3]\<rparr>" NCHW 2 3 1 0 2 3 2 1 1 1] t
  show ?thesis by blast
qed

section \<open>The clamp of the second sample\<close>





lemma pixelValue_nearest_floor:
  assumes "pixelValue D ish osh l NearestNeighbor n c y x = Inr v"
    and "texel (ish ! GetHeightIndex l) (osh ! GetHeightIndex l) y = Inr y0"
    and "texel (ish ! GetWidthIndex l) (osh ! GetWidthIndex l) x = Inr x0"
  shows "v = D (GetIndex l ish n c y0 x0)"
proof -
  from assms(2,3) have t: "numeric_cast_uint (ffloor (project (ish ! GetWidthIndex l) (osh ! GetWidthIndex l) x)) = Inr x0"
    "numeric_cast_uint (ffloor (project (ish ! GetHeightIndex l) (osh ! GetHeightIndex l) y)) = Inr y0"
    by (simp_all add: texel_def)
  from pixelValue_nearest[OF assms(1)] assms(2,3)
    nearest_first(2)[OF project_is_float t(1) project_is_float t(2)]
  show ?thesis by auto
qed



section \<open>Bilinear interpolation\<close>

lemma round_to_one: "round_to binary32 s 1 = Finite s 1"
  using round_exact[of 1 binary32 0 s] by simp

lemma finite_floatE:
  assumes "finite_float f a"
  obtains s q where "a = Finite s q" "0 \<le> q" "round_to f s q = Finite s q"
  using assms by (cases a) (auto simp: finite_float_def)

lemma finite_float_zero: "finite_float f (Finite s 0)"
  by (simp add: finite_float_def round_to_zero)

lemma fadd_zero_left:
  assumes "0 \<le> p" "round_to f s p = Finite s p"
  shows "fadd f (Finite t 0) (Finite s p) = (if p = 0 then Finite (t \<and> s) 0 else Finite s p)"
  using assms by (cases s) (auto simp: valof_def Let_def)

lemma fadd_zero_right:
  assumes "0 \<le> p" "round_to f s p = Finite s p"
  shows "fadd f (Finite s p) (Finite t 0) = (if p = 0 then Finite (s \<and> t) 0 else Finite s p)"
  using assms by (cases s) (auto simp: valof_def Let_def)

lemma Lerp_zero:
  assumes "finite_float binary32 a" "finite_float binary32 b"
  shows "feq (Lerp a b (Finite s 0)) a" and "finite_float binary32 (Lerp a b (Finite s 0))"
proof -
  from assms(1) obtain sa p where a: "a = Finite sa p" "0 \<le> p" "round_to binary32 sa p = Finite sa p"
    by (rule finite_floatE)
  from assms(2) obtain sb q where b: "b = Finite sb q"
    by (rule finite_floatE)
  have 1: "fsub binary32 (Finite False 1) (Finite s 0) = Finite False 1"
    by (simp add: fsub_def valof_def round_to_one)
  have "Lerp a b (Finite s 0) = fadd binary32 (Finite (s \<noteq> sb) 0) (Finite sa p)"
    by (simp add: Lerp_def 1 a b round_to_zero)
  also have "\<dots> = (if p = 0 then Finite ((s \<noteq> sb) \<and> sa) 0 else Finite sa p)"
    by (rule fadd_zero_left[OF a(2,3)])
  finally have L: "Lerp a b (Finite s 0) =
      (if p = 0 then Finite ((s \<noteq> sb) \<and> sa) 0 else Finite sa p)" .
  show "feq (Lerp a b (Finite s 0)) a"
    unfolding L by (simp add: a(1) valof_def)
  show "finite_float binary32 (Lerp a b (Finite s 0))"
    unfolding L using a(2,3) by (simp add: finite_float_def round_to_zero)
qed

lemma Lerp_one:
  assumes "finite_float binary32 a" "finite_float binary32 b"
  shows "feq (Lerp a b (Finite False 1)) b"
proof -
  from assms(1) obtain sa p where a: "a = Finite sa p"
    by (rule finite_floatE)
  from assms(2) obtain sb q where b: "b = Finite sb q" "0 \<le> q" "round_to binary32 sb q = Finite sb q"
    by (rule finite_floatE)
  have 1: "fsub binary32 (Finite False 1) (Finite False 1) = Finite False 0"
    by (simp add: fsub_def valof_def)
  have "Lerp a b (Finite False 1) = fadd binary32 (Finite sb q) (Finite sa 0)"
    by (simp add: Lerp_def 1 a b round_to_zero)
  also have "\<dots> = (if q = 0 then Finite (sb \<and> sa) 0 else Finite sb q)"
    by (rule fadd_zero_right[OF b(2,3)])
  finally have L: "Lerp a b (Finite False 1) =
      (if q = 0 then Finite (sb \<and> sa) 0 else Finite sb q)" .
  show ?thesis
    unfolding L by (simp add: b(1) valof_def)
qed

lemma feq_trans: "feq a b \<Longrightarrow> feq b c \<Longrightarrow> feq a c"
  by (cases a; cases b; cases c) simp_all

lemma pixelValue_bilinear:
  assumes "pixelValue D ish osh l Bilinear n c y x = Inr v"
  shows "\<exists>y0 x0. texel (ish ! GetHeightIndex l) (osh ! GetHeightIndex l) y = Inr y0 \<and>
           texel (ish ! GetWidthIndex l) (osh ! GetWidthIndex l) x = Inr x0 \<and>
           v = Lerp (Lerp (D (GetIndex l ish n c y0 x0))
                          (D (GetIndex l ish n c y0 (next_texel (ish ! GetWidthIndex l) x0)))
                          (weight (ish ! GetWidthIndex l) (osh ! GetWidthIndex l) x))
                    (Lerp (D (GetIndex l ish n c (next_texel (ish ! GetHeightIndex l) y0) x0))
                          (D (GetIndex l ish n c (next_texel (ish ! GetHeightIndex l) y0)
                                                 (next_texel (ish ! GetWidthIndex l) x0)))
                          (weight (ish ! GetWidthIndex l) (osh ! GetWidthIndex l) x))
                    (weight (ish ! GetHeightIndex l) (osh ! GetHeightIndex l) y)"
  using assms
  by (auto simp: pixelValue_def Let_def interpolate_def dec_Get_def dec_at_def split: sum.splits)

text \<open>
  C4, as stated, fails: the interpolation \<open>w * b + (1 - w) * a\<close> at weight zero
  multiplies \<open>b\<close> by zero, and zero times an infinity is a NaN, so the result is
  not \<open>a\<close>.
\<close>

theorem Lerp_zero_weight_counterexample:
  "Lerp (Finite False 1) (Infty False) (Finite False 0) = NaN"
  by (simp add: Lerp_def)

text \<open>
  C4, amended: after a run with method Bilinear that returns, the element at
  every output coordinate is \<open>Lerp ly0 ly1 yw\<close> with \<open>ly0 = Lerp s00 s01 xw\<close> and
  \<open>ly1 = Lerp s10 s11 xw\<close>, the four samples read at \<open>(y0, x0)\<close>, \<open>(y0, x1)\<close>,
  \<open>(y1, x0)\<close> and \<open>(y1, x1)\<close>, where \<open>Lerp a b w = w * b + (1 - w) * a\<close> in single
  precision; for finite \<open>a\<close> and \<open>b\<close> the interpolation at weight zero is equal to
  \<open>a\<close> and at weight one equal to \<open>b\<close>, in the sense of the floating-point
  comparison (the sign of a zero may differ).
\<close>

theorem Resize_bilinear:
  fixes inputInfo outputInfo :: TensorInfo and l :: DataLayout and x y n c :: nat
    and inp :: Decoder
  defines "Hin \<equiv> GetShape inputInfo ! GetHeightIndex l"
    and "Win \<equiv> GetShape inputInfo ! GetWidthIndex l"
    and "Hout \<equiv> GetShape outputInfo ! GetHeightIndex l"
    and "Wout \<equiv> GetShape outputInfo ! GetWidthIndex l"
  defines "sample \<equiv> \<lambda>y x. dec_data inp (GetIndex l (GetShape inputInfo) n c y x)"
  assumes run: "Resize inp inputInfo out outputInfo l Bilinear = Inr (inp', out')"
    and ch: "GetShape inputInfo ! GetChannelsIndex l \<le> GetShape outputInfo ! GetChannelsIndex l"
    and rng: "n < GetShape inputInfo ! 0" "c < GetShape inputInfo ! GetChannelsIndex l"
      "y < Hout" "x < Wout"
  shows "(\<exists>y0 x0. texel Hin Hout y = Inr y0 \<and> texel Win Wout x = Inr x0 \<and>
            enc_data out' (GetIndex l (GetShape outputInfo) n c y x) =
              Lerp (Lerp (sample y0 x0) (sample y0 (next_texel Win x0)) (weight Win Wout x))
                   (Lerp (sample (next_texel Hin y0) x0)
                         (sample (next_texel Hin y0) (next_texel Win x0)) (weight Win Wout x))
                   (weight Hin Hout y)) \<and>
         Lerp a b w = fadd binary32 (fmul binary32 w b)
                        (fmul binary32 (fsub binary32 (Finite False 1) w) a) \<and>
         (finite_float binary32 a \<and> finite_float binary32 b \<longrightarrow>
            feq (Lerp a b (Finite s 0)) a \<and> feq (Lerp a b (Finite False 1)) b)"
proof (intro conjI impI)
  from Resize_output[OF run ch rng(1,2) rng(3,4)[unfolded Hout_def Wout_def]]
  have "pixelValue (dec_data inp) (GetShape inputInfo) (GetShape outputInfo) l Bilinear
          n c y x = Inr (enc_data out' (GetIndex l (GetShape outputInfo) n c y x))" .
  from pixelValue_bilinear[OF this]
  show "\<exists>y0 x0. texel Hin Hout y = Inr y0 \<and> texel Win Wout x = Inr x0 \<and>
            enc_data out' (GetIndex l (GetShape outputInfo) n c y x) =
              Lerp (Lerp (sample y0 x0) (sample y0 (next_texel Win x0)) (weight Win Wout x))
                   (Lerp (sample (next_texel Hin y0) x0)
                         (sample (next_texel Hin y0) (next_texel Win x0)) (weight Win Wout x))
                   (weight Hin Hout y)"
    unfolding Hin_def Win_def Hout_def Wout_def sample_def .
next
  show "Lerp a b w = fadd binary32 (fmul binary32 w b)
                        (fmul binary32 (fsub binary32 (Finite False 1) w) a)"
    by (rule Lerp_def)
next
  assume f: "finite_float binary32 a \<and> finite_float binary32 b"
  then show "feq (Lerp a b (Finite s 0)) a" by (intro Lerp_zero) simp_all
  from f show "feq (Lerp a b (Finite False 1)) b" by (intro Lerp_one) simp_all
qed

lemma finite_float_examples:
  "finite_float binary32 (Finite False 2)" "finite_float binary32 (Finite False 3)"
  by code_simp+

theorem Resize_bilinear_witness:
  "\<exists>inp' out' y0 x0.
     Resize example_input \<lparr>GetShape = [1, 1, 2, 2]\<rparr> blank_output \<lparr>GetShape = [1, 1, 3, 3]\<rparr>
       NCHW Bilinear = Inr (inp', out') \<and>
     texel 2 3 2 = Inr y0 \<and> texel 2 3 1 = Inr x0 \<and>
     enc_data out' (GetIndex NCHW [1, 1, 3, 3] 0 0 2 1) =
       Lerp (Lerp (dec_data example_input (GetIndex NCHW [1, 1, 2, 2] 0 0 y0 x0))
                  (dec_data example_input (GetIndex NCHW [1, 1, 2, 2] 0 0 y0 (next_texel 2 x0)))
                  (weight 2 3 1))
            (Lerp (dec_data example_input (GetIndex NCHW [1, 1, 2, 2] 0 0 (next_texel 2 y0) x0))
                  (dec_data example_input
                     (GetIndex NCHW [1, 1, 2, 2] 0 0 (next_texel 2 y0) (next_texel 2 x0)))
                  (weight 2 3 1))
            (weight 2 3 2) \<and>
     finite_float binary32 (Finite False 2) \<and> finite_float binary32 (Finite False 3) \<and>
     feq (Lerp (Finite False 2) (Finite False 3) (Finite False 0)) (Finite False 2) \<and>
     feq (Lerp (Finite False 2) (Finite False 3) (Finite False 1)) (Finite False 3)"
proof -
  obtain inp' out' where
    run: "Resize example_input \<lparr>GetShape = [1, 1, 2, 2]\<rparr> blank_output
            \<lparr>GetShape = [1, 1, 3, 3]\<rparr> NCHW Bilinear = Inr (inp', out')"
    using example_returns by (metis surj_pair)
  have p: "GetShape \<lparr>GetShape = [1, 1, 2, 2]\<rparr> ! GetChannelsIndex NCHW
             \<le> GetShape \<lparr>GetShape = [1, 1, 3, 3]\<rparr> ! GetChannelsIndex NCHW"
    "0 < GetShape \<lparr>GetShape = [1, 1, 2, 2]\<rparr> ! 0"
    "0 < GetShape \<lparr>GetShape = [1, 1, 2, 2]\<rparr> ! GetChannelsIndex NCHW"
    "2 < GetShape \<lparr>GetShape = [1, 1, 3, 3]\<rparr> ! GetHeightIndex NCHW"
    "1 < GetShape \<lparr>GetShape = [1, 1, 3, 3]\<rparr> ! GetWidthIndex NCHW"
    by simp_all
  note t = Resize_bilinear[OF run p, of "Finite False 2" "Finite False 3" "Finite False 0" False]
  from t[THEN conjunct1] obtain y0 x0 where
    "texel 2 3 2 = Inr y0" "texel 2 3 1 = Inr x0"
    "enc_data out' (GetIndex NCHW [1, 1, 3, 3] 0 0 2 1) =
       Lerp (Lerp (dec_data example_input (GetIndex NCHW [1, 1, 2, 2] 0 0 y0 x0))
                  (dec_data example_input (GetIndex NCHW [1, 1, 2, 2] 0 0 y0 (next_texel 2 x0)))
                  (weight 2 3 1))
            (Lerp (dec_data example_input (GetIndex NCHW [1, 1, 2, 2] 0 0 (next_texel 2 y0) x0))
                  (dec_data example_input
                     (GetIndex NCHW [1, 1, 2, 2] 0 0 (next_texel 2 y0) (next_texel 2 x0)))
                  (weight 2 3 1))
            (weight 2 3 2)"
    by auto
  moreover from t[THEN conjunct2, THEN conjunct2] finite_float_examples
  have "feq (Lerp (Finite False 2) (Finite False 3) (Finite False 0)) (Finite False 2)"
    "feq (Lerp (Finite False 2) (Finite False 3) (Finite False 1)) (Finite False 3)"
    by simp_all
  ultimately show ?thesis
    using run finite_float_examples by blast
qed

section \<open>Every output element is written once\<close>







section \<open>Coordinates that land on a texel\<close>

lemma exact_texel:
  assumes p: "project i j y = Finite False (of_nat k)" and k: "k < 4294967296"
  shows "texel i j y = Inr k" and "weight i j y = Finite False 0"
    and "ffloor (project i j y) = Finite False (of_nat k)"
proof -
  show f: "ffloor (project i j y) = Finite False (of_nat k)"
    unfolding p by (simp add: valof_def Let_def)
  have "(of_nat k :: rat) < 4294967296" using k by simp
  then show "texel i j y = Inr k"
    unfolding texel_def f by (simp add: numeric_cast_uint_def valof_def)
  show "weight i j y = Finite False 0"
    unfolding weight_def f unfolding p by (simp add: fsub_def valof_def)
qed

lemma project_identity:
  assumes "y < H" "H \<le> 16777216"
  shows "project H H y = Finite False (of_nat y)"
proof -
  from assms have H: "0 < H" by simp
  have nH: "numeric_cast_float H = Finite False (of_nat H)"
    by (rule numeric_cast_float_exact[OF assms(2)])
  have ny: "numeric_cast_float y = Finite False (of_nat y)"
    by (rule numeric_cast_float_exact) (use assms in simp)
  have s: "fdiv binary32 (numeric_cast_float H) (numeric_cast_float H) = Finite False 1"
    unfolding nH using H by (simp add: round_to_one)
  show ?thesis
    unfolding project_def s unfolding ny
    using ny by (simp add: numeric_cast_float_def)
qed

lemma pixelValue_Unrecognized:
  "pixelValue D ish osh l (Unrecognized k) = pixelValue D ish osh l NearestNeighbor"
  by (intro ext) (unfold pixelValue_def interpolate_Unrecognized, rule refl)

lemma nearest_at_texel:
  assumes pv: "pixelValue D ish osh l m n c y x = Inr v" and m: "m \<noteq> Bilinear"
    and ty: "texel (ish ! GetHeightIndex l) (osh ! GetHeightIndex l) y = Inr k"
    and tx: "texel (ish ! GetWidthIndex l) (osh ! GetWidthIndex l) x = Inr j"
  shows "v = D (GetIndex l ish n c k j)"
proof (cases m)
  case Bilinear
  with m show ?thesis by simp
next
  case NearestNeighbor
  from pixelValue_nearest_floor[OF pv[unfolded NearestNeighbor] ty tx] show ?thesis .
next
  case (Unrecognized u)
  from pixelValue_nearest_floor[OF pv[unfolded Unrecognized pixelValue_Unrecognized] ty tx]
  show ?thesis .
qed

lemma bilinear_at_texel:
  assumes pv: "pixelValue D ish osh l Bilinear n c y x = Inr v"
    and ty: "texel (ish ! GetHeightIndex l) (osh ! GetHeightIndex l) y = Inr k"
      "weight (ish ! GetHeightIndex l) (osh ! GetHeightIndex l) y = Finite s 0"
    and tx: "texel (ish ! GetWidthIndex l) (osh ! GetWidthIndex l) x = Inr j"
      "weight (ish ! GetWidthIndex l) (osh ! GetWidthIndex l) x = Finite t 0"
    and fin: "finite_float binary32 (D (GetIndex l ish n c k j))"
      "finite_float binary32 (D (GetIndex l ish n c k (next_texel (ish ! GetWidthIndex l) j)))"
      "finite_float binary32 (D (GetIndex l ish n c (next_texel (ish ! GetHeightIndex l) k) j))"
      "finite_float binary32 (D (GetIndex l ish n c (next_texel (ish ! GetHeightIndex l) k)
                                    (next_texel (ish ! GetWidthIndex l) j)))"
  shows "feq v (D (GetIndex l ish n c k j))"
proof -
  let ?s00 = "D (GetIndex l ish n c k j)"
  let ?s01 = "D (GetIndex l ish n c k (next_texel (ish ! GetWidthIndex l) j))"
  let ?s10 = "D (GetIndex l ish n c (next_texel (ish ! GetHeightIndex l) k) j)"
  let ?s11 = "D (GetIndex l ish n c (next_texel (ish ! GetHeightIndex l) k)
                    (next_texel (ish ! GetWidthIndex l) j))"
  from pixelValue_bilinear[OF pv] ty tx
  have v: "v = Lerp (Lerp ?s00 ?s01 (Finite t 0)) (Lerp ?s10 ?s11 (Finite t 0)) (Finite s 0)"
    by auto
  have "feq v (Lerp ?s00 ?s01 (Finite t 0))"
    unfolding v by (intro Lerp_zero fin)
  moreover have "feq (Lerp ?s00 ?s01 (Finite t 0)) ?s00"
    by (intro Lerp_zero fin)
  ultimately show ?thesis by (rule feq_trans)
qed

lemma next_texel_less:
  assumes "k < d" "d \<le> 4294967295"
  shows "next_texel d k < d"
proof -
  from assms have "uint_sub d 1 = d - 1"
    by (simp add: uint_sub_def mod_if)
  then have "next_texel d k \<le> d - 1"
    by (simp add: next_texel_def)
  with assms(1) show ?thesis by linarith
qed


lemma finite_float_of_nat:
  "k \<le> 16777216 \<Longrightarrow> finite_float binary32 (Finite False (of_nat k))"
  using numeric_cast_float_exact[of k]
  by (simp add: finite_float_def numeric_cast_float_def)

lemma scale_identity:
  assumes "0 < H" "H \<le> 16777216"
  shows "fdiv binary32 (numeric_cast_float H) (numeric_cast_float H) = Finite False 1"
  unfolding numeric_cast_float_exact[OF assms(2)] using assms(1) by (simp add: round_to_one)

lemma identity_axis:
  assumes "y < H" "H \<le> 16777216"
  shows "project H H y = Finite False (of_nat y)" "texel H H y = Inr y"
    "weight H H y = Finite False 0"
proof -
  show p: "project H H y = Finite False (of_nat y)"
    by (rule project_identity[OF assms])
  from assms have "y < 4294967296" by simp
  from exact_texel[OF p this] show "texel H H y = Inr y" "weight H H y = Finite False 0"
    by simp_all
qed

section \<open>Resizing to the same size\<close>

lemma texel_2_2: "texel 2 2 0 = Inr 0" "texel 2 2 1 = Inr 1"
  by code_simp+

lemma fadd_NaN_right: "fadd f a NaN = NaN"
  by (cases a) simp_all

lemma fmul_NaN_right: "fmul f a NaN = NaN"
  by (cases a) simp_all

lemma Lerp_NaN: "Lerp NaN b w = NaN"
  by (simp add: Lerp_def fmul_NaN_right fadd_NaN_right)

lemma Lerp_one_inf: "Lerp (Finite False 1) (Infty False) (Finite False 0) = NaN"
  by (simp add: Lerp_def)

lemma next_texel_values:
  "next_texel 1 0 = 0" "next_texel 2 0 = 1" "next_texel 4 0 = 1" "next_texel 4 2 = 3"
  by (simp_all add: next_texel_def uint_add_def uint_sub_def)

lemma weight_2_2_0: "weight 2 2 0 = Finite False 0"
  using identity_axis(3)[of 0 2] by simp

text \<open>
  C5, as stated, fails: on an input row \<open>[1, \<infinity>]\<close> resized to its own size with
  method Bilinear, the first output element is \<open>0 * \<infinity> + 1 * 1\<close>, a NaN, and not the
  first input element.
\<close>

theorem Resize_identity_counterexample:
  "result_at (Resize inf_input \<lparr>GetShape = [1, 1, 1, 2]\<rparr> blank_output
                \<lparr>GetShape = [1, 1, 1, 2]\<rparr> NCHW Bilinear) 0 = Inr NaN \<and>
   dec_data inf_input 0 = Finite False 1"
proof
  let ?i = "\<lparr>GetShape = [1, 1, 1, 2]\<rparr>"
  have ty: "\<exists>y0. texel (GetShape ?i ! GetHeightIndex NCHW) (GetShape ?i ! GetHeightIndex NCHW) y
              = Inr y0"
    if "y < GetShape ?i ! GetHeightIndex NCHW" for y
  proof -
    from that have "y = 0" by simp
    with texel_1_1 show ?thesis by simp
  qed
  have tx: "\<exists>x0. texel (GetShape ?i ! GetWidthIndex NCHW) (GetShape ?i ! GetWidthIndex NCHW) x
              = Inr x0"
    if "x < GetShape ?i ! GetWidthIndex NCHW" for x
  proof -
    from that have "x = 0 \<or> x = 1" by (simp add: less_2_cases_iff)
    with texel_2_2 show ?thesis by auto
  qed
  from Resize_returns[OF ty tx] obtain inp' out' where
    run: "Resize inf_input ?i blank_output ?i NCHW Bilinear = Inr (inp', out')"
    by (metis surj_pair)
  from Resize_output[OF run, of 0 0 0 0]
  have "pixelValue (dec_data inf_input) [1, 1, 1, 2] [1, 1, 1, 2] NCHW Bilinear 0 0 0 0 =
          Inr (enc_data out' (GetIndex NCHW [1, 1, 1, 2] 0 0 0 0))"
    by simp
  from pixelValue_bilinear[OF this] texel_1_1 texel_2_2(1)
  have "enc_data out' (GetIndex NCHW [1, 1, 1, 2] 0 0 0 0) =
          Lerp (Lerp (dec_data inf_input (GetIndex NCHW [1, 1, 1, 2] 0 0 0 0))
                     (dec_data inf_input (GetIndex NCHW [1, 1, 1, 2] 0 0 0 (next_texel 2 0)))
                     (weight 2 2 0))
               (Lerp (dec_data inf_input (GetIndex NCHW [1, 1, 1, 2] 0 0 (next_texel 1 0) 0))
                     (dec_data inf_input
                        (GetIndex NCHW [1, 1, 1, 2] 0 0 (next_texel 1 0) (next_texel 2 0)))
                     (weight 2 2 0))
               (weight 1 1 0)"
    by simp
  also have "\<dots> = NaN"
    unfolding next_texel_values weight_2_2_0
    by (simp add: GetIndex_def inf_input_def Lerp_one_inf Lerp_NaN)
  finally have "enc_data out' 0 = NaN"
    by (simp add: GetIndex_def)
  then show "result_at (Resize inf_input ?i blank_output ?i NCHW Bilinear) 0 = Inr NaN"
    unfolding run result_at_def by simp
  show "dec_data inf_input 0 = Finite False 1"
    by (simp add: inf_input_def)
qed


text \<open>
  C5, amended: if the output height and width equal the input height and width
  and neither exceeds \<open>2\<^sup>2\<^sup>4\<close>, the run returns, the scale factors are one, every
  projected coordinate converts to the coordinate itself and has the weight zero, and
  every output element at \<open>(n, c, y, x)\<close> is, with a method other than Bilinear, the
  input element at \<open>(n, c, y, x)\<close>, and with method Bilinear, where the input
  elements of that batch and channel are finite, equal to it in the sense of the
  floating-point comparison (the sign of a zero may differ).
\<close>

theorem Resize_identity:
  fixes inputInfo outputInfo :: TensorInfo and l :: DataLayout
  defines "N \<equiv> GetShape inputInfo ! 0"
    and "C \<equiv> GetShape inputInfo ! GetChannelsIndex l"
    and "H \<equiv> GetShape inputInfo ! GetHeightIndex l"
    and "W \<equiv> GetShape inputInfo ! GetWidthIndex l"
  assumes eqH: "GetShape outputInfo ! GetHeightIndex l = H"
    and eqW: "GetShape outputInfo ! GetWidthIndex l = W"
    and ch: "C \<le> GetShape outputInfo ! GetChannelsIndex l"
    and size: "H \<le> 16777216" "W \<le> 16777216"
  shows "\<exists>inp' out'.
           Resize inp inputInfo out outputInfo l m = Inr (inp', out') \<and>
           (\<forall>y<H. fdiv binary32 (numeric_cast_float H) (numeric_cast_float H) = Finite False 1 \<and>
                  texel H H y = Inr y \<and> weight H H y = Finite False 0) \<and>
           (\<forall>x<W. fdiv binary32 (numeric_cast_float W) (numeric_cast_float W) = Finite False 1 \<and>
                  texel W W x = Inr x \<and> weight W W x = Finite False 0) \<and>
           (\<forall>n<N. \<forall>c<C. \<forall>y<H. \<forall>x<W.
              (m \<noteq> Bilinear \<longrightarrow>
                 enc_data out' (GetIndex l (GetShape outputInfo) n c y x) =
                   dec_data inp (GetIndex l (GetShape inputInfo) n c y x)) \<and>
              (m = Bilinear \<and>
               (\<forall>y'<H. \<forall>x'<W. finite_float binary32
                                 (dec_data inp (GetIndex l (GetShape inputInfo) n c y' x'))) \<longrightarrow>
                 feq (enc_data out' (GetIndex l (GetShape outputInfo) n c y x))
                     (dec_data inp (GetIndex l (GetShape inputInfo) n c y x))))"
proof -
  let ?ish = "GetShape inputInfo" and ?osh = "GetShape outputInfo"
  have ty: "\<exists>y0. texel (?ish ! GetHeightIndex l) (?osh ! GetHeightIndex l) y = Inr y0"
    if "y < ?osh ! GetHeightIndex l" for y
    using identity_axis(2)[of y H] that size(1) by (auto simp: eqH H_def[symmetric])
  have tx: "\<exists>x0. texel (?ish ! GetWidthIndex l) (?osh ! GetWidthIndex l) x = Inr x0"
    if "x < ?osh ! GetWidthIndex l" for x
    using identity_axis(2)[of x W] that size(2) by (auto simp: eqW W_def[symmetric])
  from Resize_returns[OF ty tx] obtain inp' out' where
    run: "Resize inp inputInfo out outputInfo l m = Inr (inp', out')"
    by (metis surj_pair)
  have axH: "fdiv binary32 (numeric_cast_float H) (numeric_cast_float H) = Finite False 1 \<and>
             texel H H y = Inr y \<and> weight H H y = Finite False 0" if "y < H" for y
    using identity_axis[OF that size(1)] scale_identity[OF _ size(1)] that by simp
  have axW: "fdiv binary32 (numeric_cast_float W) (numeric_cast_float W) = Finite False 1 \<and>
             texel W W x = Inr x \<and> weight W W x = Finite False 0" if "x < W" for x
    using identity_axis[OF that size(2)] scale_identity[OF _ size(2)] that by simp
  have el: "(m \<noteq> Bilinear \<longrightarrow>
                 enc_data out' (GetIndex l ?osh n c y x) = dec_data inp (GetIndex l ?ish n c y x)) \<and>
              (m = Bilinear \<and>
               (\<forall>y'<H. \<forall>x'<W. finite_float binary32 (dec_data inp (GetIndex l ?ish n c y' x'))) \<longrightarrow>
                 feq (enc_data out' (GetIndex l ?osh n c y x))
                     (dec_data inp (GetIndex l ?ish n c y x)))"
    if rng: "n < N" "c < C" "y < H" "x < W" for n c y x
  proof -
    have pv: "pixelValue (dec_data inp) ?ish ?osh l m n c y x =
                Inr (enc_data out' (GetIndex l ?osh n c y x))"
      by (rule Resize_output[OF run]) (use rng ch in \<open>simp_all add: N_def C_def eqH eqW\<close>)
    have t: "texel (?ish ! GetHeightIndex l) (?osh ! GetHeightIndex l) y = Inr y"
      "weight (?ish ! GetHeightIndex l) (?osh ! GetHeightIndex l) y = Finite False 0"
      "texel (?ish ! GetWidthIndex l) (?osh ! GetWidthIndex l) x = Inr x"
      "weight (?ish ! GetWidthIndex l) (?osh ! GetWidthIndex l) x = Finite False 0"
      using axH[OF rng(3)] axW[OF rng(4)] by (simp_all add: eqH eqW H_def[symmetric] W_def[symmetric])
    have nn: "enc_data out' (GetIndex l ?osh n c y x) = dec_data inp (GetIndex l ?ish n c y x)"
      if "m \<noteq> Bilinear"
      by (rule nearest_at_texel[OF pv that t(1,3)])
    have bl: "feq (enc_data out' (GetIndex l ?osh n c y x)) (dec_data inp (GetIndex l ?ish n c y x))"
      if m: "m = Bilinear"
        and fin: "\<forall>y'<H. \<forall>x'<W. finite_float binary32 (dec_data inp (GetIndex l ?ish n c y' x'))"
    proof -
      have ny: "next_texel (?ish ! GetHeightIndex l) y < H"
        unfolding H_def[symmetric] by (rule next_texel_less[OF rng(3)]) (use size in simp)
      have nx: "next_texel (?ish ! GetWidthIndex l) x < W"
        unfolding W_def[symmetric] by (rule next_texel_less[OF rng(4)]) (use size in simp)
      show ?thesis
        by (rule bilinear_at_texel[OF pv[unfolded m] t]) (use fin rng ny nx in simp_all)
    qed
    from nn bl show ?thesis by blast
  qed
  from run axH axW el show ?thesis
    by (intro exI[of _ inp'] exI[of _ out']) simp
qed


theorem Resize_identity_witness:
  "\<exists>inp1 out1 inp2 out2.
     Resize example_input \<lparr>GetShape = [1, 1, 2, 2]\<rparr> blank_output \<lparr>GetShape = [1, 1, 2, 2]\<rparr>
       NCHW NearestNeighbor = Inr (inp1, out1) \<and>
     enc_data out1 (GetIndex NCHW [1, 1, 2, 2] 0 0 1 0) =
       dec_data example_input (GetIndex NCHW [1, 1, 2, 2] 0 0 1 0) \<and>
     Resize example_input \<lparr>GetShape = [1, 1, 2, 2]\<rparr> blank_output \<lparr>GetShape = [1, 1, 2, 2]\<rparr>
       NCHW Bilinear = Inr (inp2, out2) \<and>
     feq (enc_data out2 (GetIndex NCHW [1, 1, 2, 2] 0 0 1 0))
         (dec_data example_input (GetIndex NCHW [1, 1, 2, 2] 0 0 1 0))"
proof -
  let ?i = "\<lparr>GetShape = [1, 1, 2, 2]\<rparr>"
  have p: "GetShape ?i ! GetHeightIndex NCHW = GetShape ?i ! GetHeightIndex NCHW"
    "GetShape ?i ! GetWidthIndex NCHW = GetShape ?i ! GetWidthIndex NCHW"
    "GetShape ?i ! GetChannelsIndex NCHW \<le> GetShape ?i ! GetChannelsIndex NCHW"
    "GetShape ?i ! GetHeightIndex NCHW \<le> 16777216"
    "GetShape ?i ! GetWidthIndex NCHW \<le> 16777216"
    by simp_all
  have b: "0 < GetShape ?i ! 0" "0 < GetShape ?i ! GetChannelsIndex NCHW"
    "1 < GetShape ?i ! GetHeightIndex NCHW" "0 < GetShape ?i ! GetWidthIndex NCHW"
    by simp_all
  have fin: "\<forall>y'<GetShape ?i ! GetHeightIndex NCHW. \<forall>x'<GetShape ?i ! GetWidthIndex NCHW.
               finite_float binary32 (dec_data example_input (GetIndex NCHW (GetShape ?i) 0 0 y' x'))"
  proof (intro allI impI)
    fix y' x' :: nat
    assume "y' < GetShape ?i ! GetHeightIndex NCHW" "x' < GetShape ?i ! GetWidthIndex NCHW"
    then have "GetIndex NCHW (GetShape ?i) 0 0 y' x' \<le> 16777216"
      by (simp add: GetIndex_def)
    from finite_float_of_nat[OF this]
    show "finite_float binary32 (dec_data example_input (GetIndex NCHW (GetShape ?i) 0 0 y' x'))"
      unfolding example_input_def by simp
  qed
  from Resize_identity[where inputInfo = ?i and outputInfo = ?i and l = NCHW
      and inp = example_input and out = blank_output and m = NearestNeighbor, OF p]
  obtain inp1 out1 where
    r1: "Resize example_input ?i blank_output ?i NCHW NearestNeighbor = Inr (inp1, out1)"
    and e1: "\<forall>n<GetShape ?i ! 0. \<forall>c<GetShape ?i ! GetChannelsIndex NCHW.
         \<forall>y<GetShape ?i ! GetHeightIndex NCHW. \<forall>x<GetShape ?i ! GetWidthIndex NCHW.
              (NearestNeighbor \<noteq> Bilinear \<longrightarrow>
                 enc_data out1 (GetIndex NCHW (GetShape ?i) n c y x) =
                   dec_data example_input (GetIndex NCHW (GetShape ?i) n c y x)) \<and>
              (NearestNeighbor = Bilinear \<and>
               (\<forall>y'<GetShape ?i ! GetHeightIndex NCHW. \<forall>x'<GetShape ?i ! GetWidthIndex NCHW.
                   finite_float binary32
                     (dec_data example_input (GetIndex NCHW (GetShape ?i) n c y' x'))) \<longrightarrow>
                 feq (enc_data out1 (GetIndex NCHW (GetShape ?i) n c y x))
                     (dec_data example_input (GetIndex NCHW (GetShape ?i) n c y x)))"
    by blast
  from Resize_identity[where inputInfo = ?i and outputInfo = ?i and l = NCHW
      and inp = example_input and out = blank_output and m = Bilinear, OF p]
  obtain inp2 out2 where
    r2: "Resize example_input ?i blank_output ?i NCHW Bilinear = Inr (inp2, out2)"
    and e2: "\<forall>n<GetShape ?i ! 0. \<forall>c<GetShape ?i ! GetChannelsIndex NCHW.
         \<forall>y<GetShape ?i ! GetHeightIndex NCHW. \<forall>x<GetShape ?i ! GetWidthIndex NCHW.
              (Bilinear \<noteq> Bilinear \<longrightarrow>
                 enc_data out2 (GetIndex NCHW (GetShape ?i) n c y x) =
                   dec_data example_input (GetIndex NCHW (GetShape ?i) n c y x)) \<and>
              (Bilinear = Bilinear \<and>
               (\<forall>y'<GetShape ?i ! GetHeightIndex NCHW. \<forall>x'<GetShape ?i ! GetWidthIndex NCHW.
                   finite_float binary32
                     (dec_data example_input (GetIndex NCHW (GetShape ?i) n c y' x'))) \<longrightarrow>
                 feq (enc_data out2 (GetIndex NCHW (GetShape ?i) n c y x))
                     (dec_data example_input (GetIndex NCHW (GetShape ?i) n c y x)))"
    by blast
  from e1[rule_format, OF b, THEN conjunct1]
  have v1: "enc_data out1 (GetIndex NCHW [1, 1, 2, 2] 0 0 1 0) =
       dec_data example_input (GetIndex NCHW [1, 1, 2, 2] 0 0 1 0)"
    by simp
  from e2[rule_format, OF b, THEN conjunct2] fin
  have v2: "feq (enc_data out2 (GetIndex NCHW [1, 1, 2, 2] 0 0 1 0))
         (dec_data example_input (GetIndex NCHW [1, 1, 2, 2] 0 0 1 0))"
    by simp
  from r1 v1 r2 v2 show ?thesis by blast
qed

section \<open>Halving a 4 x 4 input\<close>








section \<open>Extents for which every conversion succeeds\<close>

text \<open>
  With an input extent of at most \<open>4294000000\<close> and an output extent that fits
  \<^verbatim>\<open>unsigned int\<close>, the projected coordinate of every index below the output extent is
  below \<open>2 ^ 32\<close>, so its conversion to \<^verbatim>\<open>unsigned int\<close> does not throw, and neither
  does the call.
\<close>

lemma texel_converts:
  assumes "Hin \<le> 4294000000" "Hout < 4294967296" "y < Hout"
  shows "\<exists>k. texel Hin Hout y = Inr k"
proof -
  from assms(3) have hout: "1 \<le> Hout" by simp
  define U :: rat where "U = 16777217 / 16777216"
  define L :: rat where "L = 16777215 / 16777216"
  define d :: rat where "d = 1 / 2 ^ 150"
  have U0: "0 \<le> U" and L0: "0 < L" and d0: "0 \<le> d"
    by (simp_all add: U_def L_def d_def)
  from assms(1) have hin: "Hin < 4294967296" by simp
  from assms(2,3) have yb: "y < 4294967296" by simp
  from numeric_cast_float_bounds[OF hin] obtain a where
    a: "numeric_cast_float Hin = Finite False a" "of_nat Hin * L \<le> a" "a \<le> of_nat Hin * U"
    unfolding U_def L_def by blast
  from numeric_cast_float_bounds[OF assms(2)] obtain b where
    b: "numeric_cast_float Hout = Finite False b" "of_nat Hout * L \<le> b" "b \<le> of_nat Hout * U"
    unfolding U_def L_def by blast
  from numeric_cast_float_bounds[OF yb] obtain yy where
    yy: "numeric_cast_float y = Finite False yy" "of_nat y * L \<le> yy" "yy \<le> of_nat y * U"
    unfolding U_def L_def by blast
  have "0 \<le> of_nat Hin * L" using L0 by simp
  from this a(2) have a0: "0 \<le> a" by (rule order_trans)
  have "0 \<le> of_nat y * L" using L0 by simp
  from this yy(2) have yy0: "0 \<le> yy" by (rule order_trans)
  have hout1: "(1::rat) \<le> of_nat Hout" using hout by simp
  then have houtpos: "(0::rat) < of_nat Hout" by simp
  have "1 * L \<le> of_nat Hout * L" using hout1 L0 by (intro mult_right_mono) simp_all
  with b(2) have bL: "L \<le> b" by simp
  with L0 have bpos: "0 < b" by simp
  have hinU: "of_nat Hin * U \<le> 4294000000 * U"
    using assms(1) U0 by (intro mult_right_mono) simp_all
  have q0: "0 \<le> a / b" using a0 bpos by simp
  have "a / b \<le> (4294000000 * U) / L"
  proof (rule frac_le)
    show "0 \<le> 4294000000 * U" using U0 by simp
    show "a \<le> 4294000000 * U" using a(3) hinU by (rule order_trans)
    show "0 < L" by (rule L0)
    show "L \<le> b" by (rule bL)
  qed
  also have "\<dots> \<le> 2 ^ 100" by (simp add: U_def L_def)
  finally have q1: "a / b \<le> 2 ^ 100" .
  from round32_upper[OF q0 q1, of False] obtain sc where
    sc: "round_to binary32 False (a / b) = Finite False sc" "0 \<le> sc" "sc \<le> a / b * U + d"
    unfolding U_def d_def by blast
  have scale: "fdiv binary32 (numeric_cast_float Hin) (numeric_cast_float Hout) = Finite False sc"
    using bpos sc(1) unfolding a(1) b(1) by simp
  have t1: "yy * (a / b) \<le> 4294000000 * (U * U / L)"
  proof -
    have m: "yy * a \<le> (of_nat y * U) * (of_nat Hin * U)"
      using yy(3) a(3) a0 U0 by (intro mult_mono) simp_all
    have "yy * a / b \<le> ((of_nat y * U) * (of_nat Hin * U)) / (of_nat Hout * L)"
    proof (rule frac_le)
      show "0 \<le> of_nat y * U * (of_nat Hin * U)" using U0 by simp
      show "yy * a \<le> of_nat y * U * (of_nat Hin * U)" by (rule m)
      show "0 < of_nat Hout * L" using houtpos L0 by simp
      show "of_nat Hout * L \<le> b" by (rule b(2))
    qed
    also have "\<dots> = (of_nat y / of_nat Hout) * (of_nat Hin * (U * U / L))"
      by simp
    also have "\<dots> \<le> 1 * (4294000000 * (U * U / L))"
    proof (rule mult_mono)
      show "(of_nat y :: rat) / of_nat Hout \<le> 1" using assms(3) houtpos by simp
      show "of_nat Hin * (U * U / L) \<le> 4294000000 * (U * U / L)"
        using assms(1) U0 L0 by (intro mult_right_mono) simp_all
      show "(0::rat) \<le> 1" by simp
      show "0 \<le> of_nat Hin * (U * U / L)" using U0 L0 by simp
    qed
    finally show ?thesis by simp
  qed
  have yyU: "yy \<le> 4294967296 * U"
  proof -
    have "of_nat y * U \<le> 4294967296 * U" using yb U0 by (intro mult_right_mono) simp_all
    with yy(3) show ?thesis by (rule order_trans)
  qed
  have "yy * sc \<le> yy * (a / b * U + d)" using sc(3) yy0 by (rule mult_left_mono)
  also have "\<dots> = yy * (a / b) * U + yy * d" by (simp add: algebra_simps)
  also have "\<dots> \<le> 4294000000 * (U * U / L) * U + 4294967296 * U * d"
    using t1 yyU U0 d0 by (intro add_mono mult_right_mono)
  finally have p1: "yy * sc \<le> 4294000000 * (U * U / L) * U + 4294967296 * U * d" .
  have p0: "0 \<le> yy * sc" using yy0 sc(2) by simp
  have "4294000000 * (U * U / L) * U + 4294967296 * U * d \<le> 2 ^ 100"
    by (simp add: U_def L_def d_def)
  with p1 have p2: "yy * sc \<le> 2 ^ 100" by (rule order_trans)
  from round32_upper[OF p0 p2, of False] obtain r where
    r: "round_to binary32 False (yy * sc) = Finite False r" "0 \<le> r" "r \<le> yy * sc * U + d"
    unfolding U_def d_def by blast
  have proj: "project Hin Hout y = Finite False r"
    unfolding project_def scale yy(1) using r(1) by simp
  have "yy * sc * U \<le> (4294000000 * (U * U / L) * U + 4294967296 * U * d) * U"
    using p1 U0 by (rule mult_right_mono)
  then have "r \<le> (4294000000 * (U * U / L) * U + 4294967296 * U * d) * U + d"
    using r(3) by simp
  also have "\<dots> < 4294967296" by (simp add: U_def L_def d_def)
  finally have "r < 4294967296" .
  from cast_floor_ok[OF r(2) this] show ?thesis
    unfolding texel_def proj .
qed


lemma Resize_returns_bounded:
  assumes "GetShape inputInfo ! GetHeightIndex l \<le> 4294000000"
    and "GetShape inputInfo ! GetWidthIndex l \<le> 4294000000"
    and "GetShape outputInfo ! GetHeightIndex l < 4294967296"
    and "GetShape outputInfo ! GetWidthIndex l < 4294967296"
  shows "\<exists>s'. Resize inp inputInfo out outputInfo l m = Inr s'"
proof (rule Resize_returns)
  fix y assume "y < GetShape outputInfo ! GetHeightIndex l"
  with assms(1,3) show "\<exists>y0. texel (GetShape inputInfo ! GetHeightIndex l)
                         (GetShape outputInfo ! GetHeightIndex l) y = Inr y0"
    by (rule texel_converts)
next
  fix x assume "x < GetShape outputInfo ! GetWidthIndex l"
  with assms(2,4) show "\<exists>x0. texel (GetShape inputInfo ! GetWidthIndex l)
                         (GetShape outputInfo ! GetWidthIndex l) x = Inr x0"
    by (rule texel_converts)
qed

section \<open>An output of more than \<open>2\<^sup>2\<^sup>4\<close> rows\<close>

lemma scale_overrun:
  "fdiv binary32 (numeric_cast_float 1) (numeric_cast_float 16777217) = Finite False (1 / 16777216)"
  by code_simp

lemma texel_overrun_last: "texel 1 16777217 16777216 = Inr 1"
  by code_simp

lemma texel_overrun:
  assumes "y < 16777217"
  shows "\<exists>y0. texel 1 16777217 y = Inr y0"
proof (cases "y = 16777216")
  case True
  show ?thesis unfolding True using texel_overrun_last by blast
next
  case False
  with assms have y: "y < 16777216" by simp
  then have ny: "numeric_cast_float y = Finite False (of_nat y)"
    by (intro numeric_cast_float_exact) simp
  have "int y < 2 ^ prec binary32" using y by simp
  moreover have "(of_int (int y) * 2 powi (- 24) :: rat) < 2 powi (emax binary32 + 1)"
  proof -
    have "(of_int (int y) * 2 powi (- 24) :: rat) \<le> of_int (int y) * 1"
      by (intro mult_left_mono) (simp_all add: power_int_minus_divide)
    also have "\<dots> < 16777216" using y by simp
    also have "\<dots> \<le> 2 powi (emax binary32 + 1)" by simp
    finally show ?thesis .
  qed
  ultimately have "round_to binary32 False (of_int (int y) * 2 powi (- 24)) =
      Finite False (of_int (int y) * 2 powi (- 24))"
    by (intro round_exact) simp_all
  moreover have "(of_int (int y) * 2 powi (- 24) :: rat) = of_nat y * (1 / 16777216)"
    by (simp add: power_int_minus_divide)
  ultimately have p: "project 1 16777217 y = Finite False (of_nat y * (1 / 16777216))"
    unfolding project_def scale_overrun ny by simp
  have "(of_nat y :: rat) < 16777216" using y by simp
  then have "\<lfloor>of_nat y * (1 / 16777216) :: rat\<rfloor> = 0"
    by (simp add: floor_eq_iff)
  then show ?thesis
    unfolding texel_def p by (simp add: valof_def numeric_cast_uint_def)
qed


lemma overrun_returns_NCHW:
  "\<exists>s'. Resize inp \<lparr>GetShape = [N, C, 1, 1]\<rparr> out \<lparr>GetShape = [N, C, 16777217, 1]\<rparr> NCHW m
         = Inr s'"
proof (rule Resize_returns)
  fix y :: nat
  assume "y < GetShape \<lparr>GetShape = [N, C, 16777217, 1]\<rparr> ! GetHeightIndex NCHW"
  then have "y < 16777217" by simp
  from texel_overrun[OF this]
  show "\<exists>y0. texel (GetShape \<lparr>GetShape = [N, C, 1, 1]\<rparr> ! GetHeightIndex NCHW)
          (GetShape \<lparr>GetShape = [N, C, 16777217, 1]\<rparr> ! GetHeightIndex NCHW) y = Inr y0"
    by simp
next
  fix x :: nat
  assume "x < GetShape \<lparr>GetShape = [N, C, 16777217, 1]\<rparr> ! GetWidthIndex NCHW"
  then have "x = 0" by simp
  with texel_1_1
  show "\<exists>x0. texel (GetShape \<lparr>GetShape = [N, C, 1, 1]\<rparr> ! GetWidthIndex NCHW)
          (GetShape \<lparr>GetShape = [N, C, 16777217, 1]\<rparr> ! GetWidthIndex NCHW) x = Inr x0"
    by simp
qed

lemma overrun_returns_NHWC:
  "\<exists>s'. Resize inp \<lparr>GetShape = [N, 1, 1, C]\<rparr> out \<lparr>GetShape = [N, 16777217, 1, C]\<rparr> NHWC m
         = Inr s'"
proof (rule Resize_returns)
  fix y :: nat
  assume "y < GetShape \<lparr>GetShape = [N, 16777217, 1, C]\<rparr> ! GetHeightIndex NHWC"
  then have "y < 16777217" by simp
  from texel_overrun[OF this]
  show "\<exists>y0. texel (GetShape \<lparr>GetShape = [N, 1, 1, C]\<rparr> ! GetHeightIndex NHWC)
          (GetShape \<lparr>GetShape = [N, 16777217, 1, C]\<rparr> ! GetHeightIndex NHWC) y = Inr y0"
    by simp
next
  fix x :: nat
  assume "x < GetShape \<lparr>GetShape = [N, 16777217, 1, C]\<rparr> ! GetWidthIndex NHWC"
  then have "x = 0" by simp
  with texel_1_1
  show "\<exists>x0. texel (GetShape \<lparr>GetShape = [N, 1, 1, C]\<rparr> ! GetWidthIndex NHWC)
          (GetShape \<lparr>GetShape = [N, 16777217, 1, C]\<rparr> ! GetWidthIndex NHWC) x = Inr x0"
    by simp
qed

lemma overrun_value:
  assumes run: "Resize inp \<lparr>GetShape = ish\<rparr> out \<lparr>GetShape = osh\<rparr> l NearestNeighbor
                  = Inr (inp', out')"
    and sh: "ish ! GetHeightIndex l = 1" "ish ! GetWidthIndex l = 1"
      "osh ! GetHeightIndex l = 16777217" "osh ! GetWidthIndex l = 1"
      "ish ! GetChannelsIndex l \<le> osh ! GetChannelsIndex l"
    and rng: "n < ish ! 0" "c < ish ! GetChannelsIndex l"
  shows "enc_data out' (GetIndex l osh n c 16777216 0) = dec_data inp (GetIndex l ish n c 1 0)"
proof -
  have "pixelValue (dec_data inp) ish osh l NearestNeighbor n c 16777216 0 =
          Inr (enc_data out' (GetIndex l osh n c 16777216 0))"
    using Resize_output[OF run, of n c 16777216 0] sh rng by simp
  from pixelValue_nearest_floor[OF this, of 1 0] sh texel_overrun_last texel_1_1
  show ?thesis by simp
qed

text \<open>
  C7: the claim fails on the code. With an input of one row and an output of
  \<open>2 ^ 24 + 1\<close> rows the scale is \<open>2 ^ - 24\<close> (the output height rounds to \<open>2 ^ 24\<close>),
  the last output row \<open>y = 2 ^ 24\<close> is projected to exactly \<open>1.0\<close>, and \<open>y0 = 1\<close> is the
  input height: the run returns, and the last output element is the content of
  offset 1, beyond the only element of the input tensor.
\<close>

theorem Resize_reads_past_last_row:
  "\<exists>inp' out'.
     Resize example_input \<lparr>GetShape = [1, 1, 1, 1]\<rparr> blank_output
       \<lparr>GetShape = [1, 1, 16777217, 1]\<rparr> NCHW NearestNeighbor = Inr (inp', out') \<and>
     texel 1 16777217 16777216 = Inr 1 \<and>
     GetIndex NCHW [1, 1, 1, 1] 0 0 1 0 = 1 \<and>
     enc_data out' (GetIndex NCHW [1, 1, 16777217, 1] 0 0 16777216 0) = dec_data example_input 1"
proof -
  obtain inp' out' where
    run: "Resize example_input \<lparr>GetShape = [1, 1, 1, 1]\<rparr> blank_output
            \<lparr>GetShape = [1, 1, 16777217, 1]\<rparr> NCHW NearestNeighbor = Inr (inp', out')"
    using overrun_returns_NCHW[of example_input 1 1 blank_output NearestNeighbor]
    by (metis surj_pair)
  have g: "GetIndex NCHW [1, 1, 1, 1] 0 0 1 0 = 1"
    by (simp add: GetIndex_def)
  from overrun_value[OF run, of 0 0] g
  have "enc_data out' (GetIndex NCHW [1, 1, 16777217, 1] 0 0 16777216 0) = dec_data example_input 1"
    by simp
  with run texel_overrun_last g show ?thesis by blast
qed

text \<open>
  Where the projected row and column are inside the input tensor, the two layouts
  compute the same value at a logical output coordinate from buffers that hold the
  same logical tensor.
\<close>

lemma pixelValue_layouts_agree:
  assumes same: "\<And>n c h w. n < N \<Longrightarrow> c < C \<Longrightarrow> h < Hin \<Longrightarrow> w < Win \<Longrightarrow>
              D1 (GetIndex NCHW [N, C, Hin, Win] n c h w) =
              D2 (GetIndex NHWC [N, Hin, Win, C] n c h w)"
    and n: "n < N" and c: "c < C"
    and ty: "texel Hin Hout y = Inr y0" and y0: "y0 < Hin"
    and tx: "texel Win Wout x = Inr x0" and x0: "x0 < Win"
    and b: "Hin \<le> 4294967295" "Win \<le> 4294967295"
  shows "pixelValue D1 [N, C, Hin, Win] [N', C', Hout, Wout] NCHW m n c y x =
         pixelValue D2 [N, Hin, Win, C] [N', Hout, Wout, C'] NHWC m n c y x"
proof -
  from next_texel_less[OF y0 b(1)] have y1: "next_texel Hin y0 < Hin" .
  from next_texel_less[OF x0 b(2)] have x1: "next_texel Win x0 < Win" .
  note e = same[OF n c y0 x0] same[OF n c y0 x1] same[OF n c y1 x0] same[OF n c y1 x1]
  show ?thesis
    by (cases m) (simp_all add: pixelValue_def ty tx Let_def interpolate_def dec_at_def dec_Get_def e)
qed

text \<open>
  C10: the claim fails on the code, by the defect of C7. A tensor of two batches
  and two channels of one element each has the same buffer in both layouts. With
  an output of \<open>2 ^ 24 + 1\<close> rows both runs return, and at the logical output
  coordinate \<open>(0, 0, 2 ^ 24, 0)\<close> the channel-first run has written the element of
  channel 1 (offset 1) and the channel-last run the element of batch 1 (offset 2).
\<close>

theorem Resize_layouts_differ_past_last_row:
  "\<exists>inp1 out1 inp2 out2.
     Resize example_input \<lparr>GetShape = [2, 2, 1, 1]\<rparr> blank_output
       \<lparr>GetShape = [2, 2, 16777217, 1]\<rparr> NCHW NearestNeighbor = Inr (inp1, out1) \<and>
     Resize example_input \<lparr>GetShape = [2, 1, 1, 2]\<rparr> blank_output
       \<lparr>GetShape = [2, 16777217, 1, 2]\<rparr> NHWC NearestNeighbor = Inr (inp2, out2) \<and>
     GetIndex NCHW [2, 2, 1, 1] 1 0 0 0 = GetIndex NHWC [2, 1, 1, 2] 1 0 0 0 \<and>
     GetIndex NCHW [2, 2, 1, 1] 0 1 0 0 = GetIndex NHWC [2, 1, 1, 2] 0 1 0 0 \<and>
     enc_data out1 (GetIndex NCHW [2, 2, 16777217, 1] 0 0 16777216 0) = Finite False 1 \<and>
     enc_data out2 (GetIndex NHWC [2, 16777217, 1, 2] 0 0 16777216 0) = Finite False 2"
proof -
  obtain inp1 out1 where
    run1: "Resize example_input \<lparr>GetShape = [2, 2, 1, 1]\<rparr> blank_output
            \<lparr>GetShape = [2, 2, 16777217, 1]\<rparr> NCHW NearestNeighbor = Inr (inp1, out1)"
    using overrun_returns_NCHW[of example_input 2 2 blank_output NearestNeighbor]
    by (metis surj_pair)
  obtain inp2 out2 where
    run2: "Resize example_input \<lparr>GetShape = [2, 1, 1, 2]\<rparr> blank_output
            \<lparr>GetShape = [2, 16777217, 1, 2]\<rparr> NHWC NearestNeighbor = Inr (inp2, out2)"
    using overrun_returns_NHWC[of example_input 2 2 blank_output NearestNeighbor]
    by (metis surj_pair)
  from overrun_value[OF run1, of 0 0]
  have 1: "enc_data out1 (GetIndex NCHW [2, 2, 16777217, 1] 0 0 16777216 0) = Finite False 1"
    by (simp add: GetIndex_def example_input_def)
  from overrun_value[OF run2, of 0 0]
  have 2: "enc_data out2 (GetIndex NHWC [2, 16777217, 1, 2] 0 0 16777216 0) = Finite False 2"
    by (simp add: GetIndex_def example_input_def)
  have "GetIndex NCHW [2, 2, 1, 1] 1 0 0 0 = GetIndex NHWC [2, 1, 1, 2] 1 0 0 0"
    "GetIndex NCHW [2, 2, 1, 1] 0 1 0 0 = GetIndex NHWC [2, 1, 1, 2] 0 1 0 0"
    by (simp_all add: GetIndex_def)
  with run1 run2 1 2 show ?thesis by blast
qed

end
